theory Spec2Isabelle
  imports Main "HOL-Library.AList"
begin

section \<open>Data model\<close>

text \<open>
  The library (\<^verbatim>\<open>src/store.ts\<close>, \<^verbatim>\<open>createStavue.ts\<close>, \<^verbatim>\<open>types.ts\<close>) builds store
  instances out of plain JavaScript objects and the reactivity primitives of Vue.
  Objects live in an explicit heap, because \<^verbatim>\<open>$reset\<close> copies references between the
  live state and the default snapshot.  A property list keeps insertion order, as
  \<^verbatim>\<open>Object.keys\<close> does for string keys that are not array indices.

  What the library is given is modelled as follows.  State values are numbers, strings and
  objects of these.  A state factory returns an object literal and may read and change
  user state, or throw.  Actions and getters are known by name only: they are bound and
  stored, never called, by the code modelled here.  A subscription callback is known by
  its identity, and a call of it is noted in a log.  A plugin is a list of statements on
  its context.  The primitives of Vue are modelled by what they do to these data:
  \<^verbatim>\<open>reactive\<close> keeps the object it is given, \<^verbatim>\<open>toRefs\<close> makes one handle per field, and a
  watcher made with \<^verbatim>\<open>flush: 'sync'\<close> runs its callback inside each write that changes the
  state it observes.
\<close>

type_synonym addr = nat

datatype val = VNum int | VStr string | VObj addr

type_synonym obj = "(string \<times> val) list"

text \<open>A plain-data literal, as a state factory writes it: \<^verbatim>\<open>{a: 1, n: {x: 2}}\<close>.\<close>

datatype jval = JNum int | JStr string | JObj jfields
  and jfields = JNil | JCons string jval jfields

text \<open>A subscription callback is known by its function identity.\<close>

type_synonym callback = nat

text \<open>One call \<^verbatim>\<open>callback({storeId, type}, newState)\<close>; \<open>d_state\<close> is the own
  properties of the state object at the moment of the call.\<close>

record delivery =
  d_callback :: callback
  d_storeId :: string
  d_type :: string
  d_state :: obj

datatype builtin = Reset | Subscribe

text \<open>What a property of \<^verbatim>\<open>storeInstance\<close> holds: a bound action, a plain value, the
  handle \<^verbatim>\<open>toRefs(state)[k]\<close>, a computed getter or a bound built-in method.\<close>

datatype slot = Action string | Plain val | StateRef string | Getter string | Method builtin

text \<open>
  The variables one call of \<^verbatim>\<open>setupStore\<close> closes over, together with the instance it
  returns.  \<open>activeWatchers\<close> is the reactivity engine's side of \<^verbatim>\<open>watch\<close>: the handles
  of the watchers that currently observe \<open>reactiveState\<close>; \<open>watchCount\<close> numbers them.
\<close>

record store =
  storeId :: string
  reactiveState :: addr
  defaultState :: addr
  subscriptions :: "callback list"
  stopWatcher :: "nat option"
  activeWatchers :: "nat list"
  watchCount :: nat
  storeInstance :: "(string \<times> slot) list"

section \<open>Subscription manager\<close>

text \<open>\<^verbatim>\<open>Array.prototype.indexOf\<close>: the first index of the element, or \<open>-1\<close>.\<close>

fun indexOf :: "'a list \<Rightarrow> 'a \<Rightarrow> int" where
  "indexOf [] x = - 1"
| "indexOf (y # ys) x =
     (if y = x then 0 else (let i = indexOf ys x in if i = - 1 then - 1 else i + 1))"

text \<open>\<^verbatim>\<open>xs.splice(i, 1)\<close> for an index inside the array.\<close>

definition splice1 :: "'a list \<Rightarrow> nat \<Rightarrow> 'a list" where
  "splice1 xs i = take i xs @ drop (Suc i) xs"

text \<open>\<^verbatim>\<open>$subscribe(callback)\<close> (store.ts, lines 122-137): push, then install the watcher
  when \<^verbatim>\<open>_stopWatcher\<close> is undefined.  The returned closure is \<open>unsubscribe callback\<close>.\<close>

definition subscribe :: "callback \<Rightarrow> store \<Rightarrow> store" where
  "subscribe cb s =
     (let s1 = s\<lparr>subscriptions := subscriptions s @ [cb]\<rparr> in
      case stopWatcher s1 of
        None \<Rightarrow>
          (let h = watchCount s1 in
           s1\<lparr>stopWatcher := Some h,
              activeWatchers := activeWatchers s1 @ [h],
              watchCount := Suc h\<rparr>)
      | Some h \<Rightarrow> s1)"

text \<open>The closure \<^verbatim>\<open>unsubscribe\<close> (store.ts, lines 139-150).\<close>

definition unsubscribe :: "callback \<Rightarrow> store \<Rightarrow> store" where
  "unsubscribe cb s =
     (let index = indexOf (subscriptions s) cb in
      if index > - 1 then
        (let s1 = s\<lparr>subscriptions := splice1 (subscriptions s) (nat index)\<rparr> in
         case stopWatcher s1 of
           Some h \<Rightarrow>
             (if length (subscriptions s1) = 0
              then s1\<lparr>activeWatchers := removeAll h (activeWatchers s1), stopWatcher := None\<rparr>
              else s1)
         | None \<Rightarrow> s1)
      else s)"

text \<open>The watcher of a store exists exactly when it has a subscriber, and it is the only
  watcher on the state.\<close>

definition watcher_inv :: "store \<Rightarrow> bool" where
  "watcher_inv s =
     ((stopWatcher s = None) = (subscriptions s = []) \<and>
      activeWatchers s = (case stopWatcher s of None \<Rightarrow> [] | Some h \<Rightarrow> [h]))"

section \<open>Heap, allocation and the reactive state\<close>

datatype error = StavueNotFound | Thrown string | TypeError

type_synonym app = "nat option"

text \<open>A store definition (\<^verbatim>\<open>StoreOptions\<close>).  The state factory is user code: it may read
  and change user state \<open>'w\<close>, and it may throw.  It returns an object literal.  Actions and
  getters are kept by name (\<^verbatim>\<open>Object.keys\<close> of the two trees); \<open>None\<close> is an omitted
  option.\<close>

record 'w storeOptions =
  state :: "'w \<Rightarrow> (error + jfields) \<times> 'w"
  actions :: "string list option"
  getters :: "string list option"

text \<open>The object a plugin is called with (\<^verbatim>\<open>PluginContext\<close>).\<close>

record 'w pluginContext =
  ctx_store :: addr
  ctx_id :: string
  ctx_options :: "'w storeOptions"
  ctx_app :: app

text \<open>
  A plugin is user code as well.  It is given by what it does with its context, in order:
  \<^verbatim>\<open>context.store[k] = v\<close>, \<^verbatim>\<open>context.store.$subscribe(cb)\<close>, \<^verbatim>\<open>context.id = s\<close>, a change of
  user state, or \<^verbatim>\<open>throw\<close>.  \<open>pluginName\<close> identifies the function.
\<close>

datatype 'w pcmd =
  PAssign string val | PSubscribe callback | PSetId string | PUser "'w \<Rightarrow> 'w" | PThrow string

record 'w plugin =
  pluginName :: string
  pluginBody :: "'w pcmd list"

text \<open>What one plugin invocation was given, noted at its entry: the plugin, the address of
  the context object, the context's fields and the properties of the store instance.\<close>

record plugin_call =
  pc_plugin :: string
  pc_context :: addr
  pc_store :: addr
  pc_id :: string
  pc_app :: app
  pc_instance :: "(string \<times> slot) list"

text \<open>The registry object (\<^verbatim>\<open>Stavue\<close>): \<^verbatim>\<open>activeStores\<close> is a \<^verbatim>\<open>Map\<close> from identifier to
  store instance (its address).\<close>

record 'w stavue =
  app :: app
  activeStores :: "string \<rightharpoonup> addr"
  plugins :: "'w plugin list"

record 'w createStavueOptions =
  cso_plugins :: "'w plugin list option"

text \<open>
  Everything a run can change: the heap of state objects, the stores, the plugin context
  objects, the user state, and three logs that only grow: callback calls, state factory
  calls (by store identifier) and plugin invocations.
\<close>

record 'w machine =
  heap :: "addr \<rightharpoonup> obj"
  nextAddr :: addr
  stores :: "addr \<rightharpoonup> store"
  nextStore :: addr
  contexts :: "'w pluginContext list"
  deliveries :: "delivery list"
  factoryCalls :: "string list"
  pluginCalls :: "plugin_call list"
  world :: 'w

definition init_machine :: "'w \<Rightarrow> 'w machine" where
  "init_machine w =
     \<lparr>heap = Map.empty, nextAddr = 0, stores = Map.empty, nextStore = 0, contexts = [],
      deliveries = [], factoryCalls = [], pluginCalls = [], world = w\<rparr>"

text \<open>Evaluating an object literal: nested objects are allocated first, properties are
  set in the order written (a repeated key keeps its first position, last value).\<close>

fun alloc_val :: "jval \<Rightarrow> (addr \<rightharpoonup> obj) \<times> addr \<Rightarrow> val \<times> (addr \<rightharpoonup> obj) \<times> addr"
  and alloc_fields :: "jfields \<Rightarrow> obj \<Rightarrow> (addr \<rightharpoonup> obj) \<times> addr \<Rightarrow> obj \<times> (addr \<rightharpoonup> obj) \<times> addr"
  where
  "alloc_val (JNum n) hn = (VNum n, hn)"
| "alloc_val (JStr s) hn = (VStr s, hn)"
| "alloc_val (JObj fs) hn =
     (case alloc_fields fs [] hn of
        (ob, h, n) \<Rightarrow> (VObj n, h(n \<mapsto> ob), Suc n))"
| "alloc_fields JNil acc hn = (acc, hn)"
| "alloc_fields (JCons k v fs) acc hn =
     (case alloc_val v hn of
        (x, hn1) \<Rightarrow> alloc_fields fs (AList.update k x acc) hn1)"

definition allocObject :: "jfields \<Rightarrow> 'w machine \<Rightarrow> addr \<times> 'w machine" where
  "allocObject fs m =
     (case alloc_fields fs [] (heap m, nextAddr m) of
        (ob, h, n) \<Rightarrow> (n, m\<lparr>heap := h(n \<mapsto> ob), nextAddr := Suc n\<rparr>))"

text \<open>Reading an object graph back as a literal, to a bounded depth.\<close>

fun reify :: "nat \<Rightarrow> (addr \<rightharpoonup> obj) \<Rightarrow> val \<Rightarrow> jval option"
  and reify_props :: "nat \<Rightarrow> (addr \<rightharpoonup> obj) \<Rightarrow> obj \<Rightarrow> jfields option"
  where
  "reify n h (VNum i) = Some (JNum i)"
| "reify n h (VStr s) = Some (JStr s)"
| "reify 0 h (VObj a) = None"
| "reify (Suc n) h (VObj a) =
     (case h a of None \<Rightarrow> None | Some ob \<Rightarrow> map_option JObj (reify_props n h ob))"
| "reify_props n h [] = Some JNil"
| "reify_props n h (p # ps) =
     (case reify n h (snd p) of
        None \<Rightarrow> None
      | Some j \<Rightarrow>
          (case reify_props n h ps of None \<Rightarrow> None | Some js \<Rightarrow> Some (JCons (fst p) j js)))"

text \<open>The callback given to \<^verbatim>\<open>watch\<close> (store.ts, lines 126-133): every subscriber, in the
  order of \<^verbatim>\<open>_subscriptions\<close>, is called with the store identifier, \<^verbatim>\<open>'direct'\<close> and the state.\<close>

definition notify :: "store \<Rightarrow> obj \<Rightarrow> delivery list" where
  "notify s st =
     map (\<lambda>cb. \<lparr>d_callback = cb, d_storeId = storeId s, d_type = ''direct'', d_state = st\<rparr>)
       (subscriptions s)"

text \<open>
  A change of the state of store \<open>a\<close> reaches every watcher that observes it.  The watcher
  is created with \<^verbatim>\<open>flush: 'sync'\<close> and \<^verbatim>\<open>deep: true\<close>: its callback runs inside the write that
  triggers it, also for a write to a nested object, once per triggering write.
\<close>

definition trigger :: "addr \<Rightarrow> 'w machine \<Rightarrow> 'w machine" where
  "trigger a m =
     (case stores m a of
        None \<Rightarrow> m
      | Some s \<Rightarrow>
          (case heap m (reactiveState s) of
             None \<Rightarrow> m
           | Some st \<Rightarrow>
               m\<lparr>deliveries := deliveries m @ concat (map (\<lambda>h. notify s st) (activeWatchers s))\<rparr>))"

text \<open>The \<^verbatim>\<open>set\<close> trap of a reactive object \<open>ob\<close> in the state of store \<open>a\<close>: the property is
  written, and the write triggers when the key is new or the value is not the one stored
  (\<^verbatim>\<open>Object.is\<close>; two objects are the same only at the same address).\<close>

definition reactiveSet :: "addr \<Rightarrow> addr \<Rightarrow> string \<Rightarrow> val \<Rightarrow> 'w machine \<Rightarrow> 'w machine" where
  "reactiveSet a ob k v m =
     (case heap m ob of
        None \<Rightarrow> m
      | Some props \<Rightarrow>
          (let m1 = m\<lparr>heap := (heap m)(ob \<mapsto> AList.update k v props)\<rparr> in
           if map_of props k = Some v then m1 else trigger a m1))"

text \<open>The \<^verbatim>\<open>deleteProperty\<close> trap: it triggers when the key was there.\<close>

definition reactiveDelete :: "addr \<Rightarrow> addr \<Rightarrow> string \<Rightarrow> 'w machine \<Rightarrow> 'w machine" where
  "reactiveDelete a ob k m =
     (case heap m ob of
        None \<Rightarrow> m
      | Some props \<Rightarrow>
          (if map_of props k = None then m
           else trigger a (m\<lparr>heap := (heap m)(ob \<mapsto> AList.delete k props)\<rparr>)))"

definition hasOwnProperty :: "'w machine \<Rightarrow> addr \<Rightarrow> string \<Rightarrow> bool" where
  "hasOwnProperty m ob k = (case heap m ob of None \<Rightarrow> False | Some props \<Rightarrow> map_of props k \<noteq> None)"

definition objectKeys :: "'w machine \<Rightarrow> addr \<Rightarrow> string list" where
  "objectKeys m ob = (case heap m ob of None \<Rightarrow> [] | Some props \<Rightarrow> map fst props)"

text \<open>\<^verbatim>\<open>Object.assign(target, source)\<close> onto a reactive target: the keys of the source are
  taken once, each value is read when its turn comes.\<close>

definition assignStep :: "addr \<Rightarrow> addr \<Rightarrow> addr \<Rightarrow> string \<Rightarrow> 'w machine \<Rightarrow> 'w machine" where
  "assignStep a target source key m =
     (case heap m source of
        None \<Rightarrow> m
      | Some props \<Rightarrow>
          (case map_of props key of None \<Rightarrow> m | Some v \<Rightarrow> reactiveSet a target key v m))"

definition objectAssign :: "addr \<Rightarrow> addr \<Rightarrow> addr \<Rightarrow> 'w machine \<Rightarrow> 'w machine" where
  "objectAssign a target source m = fold (assignStep a target source) (objectKeys m source) m"

text \<open>\<^verbatim>\<open>$reset\<close> (store.ts, lines 113-121) of the store at \<open>a\<close>.\<close>

definition resetStep :: "addr \<Rightarrow> store \<Rightarrow> string \<Rightarrow> 'w machine \<Rightarrow> 'w machine" where
  "resetStep a s key m =
     (if \<not> hasOwnProperty m (defaultState s) key
      then reactiveDelete a (reactiveState s) key m else m)"

definition reset :: "addr \<Rightarrow> 'w machine \<Rightarrow> 'w machine" where
  "reset a m =
     (case stores m a of
        None \<Rightarrow> m
      | Some s \<Rightarrow>
          objectAssign a (reactiveState s) (defaultState s)
            (fold (resetStep a s) (objectKeys m (reactiveState s)) m))"

text \<open>\<^verbatim>\<open>$subscribe\<close> and the closure it returns, on the store at \<open>a\<close>.\<close>

definition onStore :: "addr \<Rightarrow> (store \<Rightarrow> store) \<Rightarrow> 'w machine \<Rightarrow> 'w machine" where
  "onStore a f m = (case stores m a of None \<Rightarrow> m | Some s \<Rightarrow> m\<lparr>stores := (stores m)(a \<mapsto> f s)\<rparr>)"

definition subscribeAt :: "addr \<Rightarrow> callback \<Rightarrow> 'w machine \<Rightarrow> 'w machine" where
  "subscribeAt a cb m = onStore a (subscribe cb) m"

definition unsubscribeAt :: "addr \<Rightarrow> callback \<Rightarrow> 'w machine \<Rightarrow> 'w machine" where
  "unsubscribeAt a cb m = onStore a (unsubscribe cb) m"

section \<open>What user code can do with a store instance\<close>

text \<open>\<^verbatim>\<open>instance[k] = v\<close>.  The instance is the plain object \<^verbatim>\<open>{}\<close> of \<^verbatim>\<open>setupStore\<close>, filled
  by assignment, so its properties are data properties: the assignment replaces what the
  property held and touches nothing else.\<close>

definition assignProperty :: "addr \<Rightarrow> string \<Rightarrow> val \<Rightarrow> 'w machine \<Rightarrow> 'w machine" where
  "assignProperty a k v m =
     onStore a (\<lambda>s. s\<lparr>storeInstance := AList.update k (Plain v) (storeInstance s)\<rparr>) m"

text \<open>Following property names from an object to a nested object.\<close>

fun resolve :: "(addr \<rightharpoonup> obj) \<Rightarrow> addr \<Rightarrow> string list \<Rightarrow> addr option" where
  "resolve h ob [] = Some ob"
| "resolve h ob (k # ks) =
     (case h ob of
        None \<Rightarrow> None
      | Some props \<Rightarrow>
          (case map_of props k of Some (VObj b) \<Rightarrow> resolve h b ks | _ \<Rightarrow> None))"

text \<open>A write through the reactive state (as a getter, a subscriber or a handle reaches
  it): \<^verbatim>\<open>state.p1. ... .pn.k = v\<close>.  \<open>None\<close> when the path does not lead to an object.\<close>

definition stateSet :: "addr \<Rightarrow> string list \<Rightarrow> string \<Rightarrow> val \<Rightarrow> 'w machine \<Rightarrow> 'w machine option" where
  "stateSet a path k v m =
     (case stores m a of
        None \<Rightarrow> None
      | Some s \<Rightarrow>
          (case resolve (heap m) (reactiveState s) path of
             None \<Rightarrow> None
           | Some ob \<Rightarrow> Some (reactiveSet a ob k v m)))"

text \<open>\<^verbatim>\<open>instance[k].value = v\<close> and \<^verbatim>\<open>instance[k].value.p1. ... .pn.f = v\<close>, where the property
  still holds the handle made by \<^verbatim>\<open>toRefs\<close>; \<open>None\<close> when it holds something else.\<close>

definition handleKey :: "'w machine \<Rightarrow> addr \<Rightarrow> string \<Rightarrow> string option" where
  "handleKey m a k =
     (case stores m a of
        None \<Rightarrow> None
      | Some s \<Rightarrow> (case map_of (storeInstance s) k of Some (StateRef k') \<Rightarrow> Some k' | _ \<Rightarrow> None))"

definition setHandleValue :: "addr \<Rightarrow> string \<Rightarrow> val \<Rightarrow> 'w machine \<Rightarrow> 'w machine option" where
  "setHandleValue a k v m =
     (case handleKey m a k of None \<Rightarrow> None | Some k' \<Rightarrow> stateSet a [] k' v m)"

definition setThroughHandle ::
  "addr \<Rightarrow> string \<Rightarrow> string list \<Rightarrow> string \<Rightarrow> val \<Rightarrow> 'w machine \<Rightarrow> 'w machine option" where
  "setThroughHandle a k path f v m =
     (case handleKey m a k of None \<Rightarrow> None | Some k' \<Rightarrow> stateSet a (k' # path) f v m)"

section \<open>Store assembly\<close>

type_synonym props = "(string \<times> slot) list"

text \<open>\<^verbatim>\<open>Object.assign\<close> onto the plain instance object.\<close>

definition assignAll :: "props \<Rightarrow> props \<Rightarrow> props" where
  "assignAll target source = fold (\<lambda>p t. AList.update (fst p) (snd p) t) source target"

definition bindActionsToStoreInstance :: "string list \<Rightarrow> props \<Rightarrow> props" where
  "bindActionsToStoreInstance acts inst =
     fold (\<lambda>actionName i. AList.update actionName (Action actionName) i) acts inst"

text \<open>\<^verbatim>\<open>toRefs(state)\<close>: one handle per property of the state.\<close>

definition toRefs :: "obj \<Rightarrow> props" where
  "toRefs st = map (\<lambda>p. (fst p, StateRef (fst p))) st"

definition assignStateToStoreInstance :: "obj \<Rightarrow> props \<Rightarrow> props" where
  "assignStateToStoreInstance st inst =
     assignAll (assignAll inst (map (\<lambda>p. (fst p, Plain (snd p))) st)) (toRefs st)"

definition bindGettersToStoreInstance :: "string list \<Rightarrow> props \<Rightarrow> props" where
  "bindGettersToStoreInstance gets inst =
     fold (\<lambda>getterName i. AList.update getterName (Getter getterName) i) gets inst"

definition bindMethodsToStoreInstance :: "(string \<times> builtin) list \<Rightarrow> props \<Rightarrow> props" where
  "bindMethodsToStoreInstance methods inst =
     fold (\<lambda>p i. AList.update (fst p) (Method (snd p)) i) methods inst"

definition methods_of_store :: "(string \<times> builtin) list" where
  "methods_of_store = [(''$reset'', Reset), (''$subscribe'', Subscribe)]"

text \<open>
  \<^verbatim>\<open>setupStore\<close> from the value returned by the state factory to
  \<^verbatim>\<open>bindMethodsToStoreInstance\<close> (store.ts, lines 104-167).  \<^verbatim>\<open>structuredClone\<close> of the object
  just built from the literal is a second, disjoint copy of the same literal.
\<close>

definition wireStore :: "string \<Rightarrow> 'w storeOptions \<Rightarrow> jfields \<Rightarrow> 'w machine \<Rightarrow> addr \<times> 'w machine" where
  "wireStore sid options lit m =
     (let acts = (case actions options of None \<Rightarrow> [] | Some xs \<Rightarrow> xs);
          gets = (case getters options of None \<Rightarrow> [] | Some xs \<Rightarrow> xs)
      in case allocObject lit m of
        (initialState, m1) \<Rightarrow>
          (case allocObject lit m1 of
             (defaultState0, m2) \<Rightarrow>
               (let st = (case heap m2 initialState of None \<Rightarrow> [] | Some props \<Rightarrow> props);
                    inst =
                      bindMethodsToStoreInstance methods_of_store
                        (bindGettersToStoreInstance gets
                          (assignStateToStoreInstance st
                            (bindActionsToStoreInstance acts [])));
                    a = nextStore m2
                in (a,
                    m2\<lparr>stores := (stores m2)(a \<mapsto>
                          \<lparr>storeId = sid, reactiveState = initialState,
                           defaultState = defaultState0, subscriptions = [],
                           stopWatcher = None, activeWatchers = [], watchCount = 0,
                           storeInstance = inst\<rparr>),
                       nextStore := Suc a\<rparr>))))"

text \<open>One statement of a plugin, run with the context object at \<open>c\<close>.\<close>

definition runCmd :: "addr \<Rightarrow> 'w pcmd \<Rightarrow> 'w machine \<Rightarrow> error option \<times> 'w machine" where
  "runCmd c cmd m =
     (if c < length (contexts m) then
        (let ctx = contexts m ! c in
         case cmd of
           PAssign k v \<Rightarrow> (None, assignProperty (ctx_store ctx) k v m)
         | PSubscribe cb \<Rightarrow>
             (case stores m (ctx_store ctx) of
                None \<Rightarrow> (Some TypeError, m)
              | Some s \<Rightarrow>
                  (case map_of (storeInstance s) ''$subscribe'' of
                     Some (Method Subscribe) \<Rightarrow> (None, subscribeAt (ctx_store ctx) cb m)
                   | _ \<Rightarrow> (Some TypeError, m)))
         | PSetId s \<Rightarrow> (None, m\<lparr>contexts := (contexts m)[c := ctx\<lparr>ctx_id := s\<rparr>]\<rparr>)
         | PUser f \<Rightarrow> (None, m\<lparr>world := f (world m)\<rparr>)
         | PThrow msg \<Rightarrow> (Some (Thrown msg), m))
      else (Some TypeError, m))"

fun runCmds :: "addr \<Rightarrow> 'w pcmd list \<Rightarrow> 'w machine \<Rightarrow> error option \<times> 'w machine" where
  "runCmds c [] m = (None, m)"
| "runCmds c (cmd # cmds) m =
     (case runCmd c cmd m of
        (Some e, m1) \<Rightarrow> (Some e, m1)
      | (None, m1) \<Rightarrow> runCmds c cmds m1)"

text \<open>\<^verbatim>\<open>plugins.forEach(plugin => plugin({store, id, options, app}))\<close> (store.ts, lines
  169-178): the object literal is evaluated in every iteration.\<close>

fun runPlugins ::
  "'w plugin list \<Rightarrow> addr \<Rightarrow> string \<Rightarrow> 'w storeOptions \<Rightarrow> app \<Rightarrow> 'w machine \<Rightarrow> error option \<times> 'w machine"
  where
  "runPlugins [] a sid options ap m = (None, m)"
| "runPlugins (p # ps) a sid options ap m =
     (let c = length (contexts m);
          inst = (case stores m a of None \<Rightarrow> [] | Some s \<Rightarrow> storeInstance s);
          m1 = m\<lparr>contexts := contexts m @
                    [\<lparr>ctx_store = a, ctx_id = sid, ctx_options = options, ctx_app = ap\<rparr>],
                  pluginCalls := pluginCalls m @
                    [\<lparr>pc_plugin = pluginName p, pc_context = c, pc_store = a, pc_id = sid,
                      pc_app = ap, pc_instance = inst\<rparr>]\<rparr>
      in case runCmds c (pluginBody p) m1 of
           (Some e, m2) \<Rightarrow> (Some e, m2)
         | (None, m2) \<Rightarrow> runPlugins ps a sid options ap m2)"

text \<open>\<^verbatim>\<open>setupStore\<close> (store.ts, lines 90-181).  An exception of the factory or of a plugin
  leaves by \<open>Inl\<close>; what was done before it stays done.\<close>

definition setupStore ::
  "string \<Rightarrow> 'w storeOptions \<Rightarrow> 'w stavue \<Rightarrow> 'w machine \<Rightarrow> (error + addr) \<times> 'w machine" where
  "setupStore sid options sv m =
     (case state options (world m) of
        (r, w) \<Rightarrow>
          (let m0 = m\<lparr>world := w, factoryCalls := factoryCalls m @ [sid]\<rparr> in
           case r of
             Inl e \<Rightarrow> (Inl e, m0)
           | Inr lit \<Rightarrow>
               (case wireStore sid options lit m0 of
                  (a, m1) \<Rightarrow>
                    (case runPlugins (plugins sv) a sid options (app sv) m1 of
                       (Some e, m2) \<Rightarrow> (Inl e, m2)
                     | (None, m2) \<Rightarrow> (Inr a, m2)))))"

section \<open>Registry\<close>

text \<open>\<^verbatim>\<open>createStavue(options)\<close> and its \<^verbatim>\<open>install(app)\<close>.\<close>

definition createStavue :: "'w createStavueOptions option \<Rightarrow> 'w stavue" where
  "createStavue options =
     \<lparr>app = None, activeStores = Map.empty,
      plugins =
        (case options of
           None \<Rightarrow> []
         | Some opt \<Rightarrow> (case cso_plugins opt of None \<Rightarrow> [] | Some ps \<Rightarrow> ps))\<rparr>"

definition install :: "nat \<Rightarrow> 'w stavue \<Rightarrow> 'w stavue" where
  "install ap sv = sv\<lparr>app := Some ap\<rparr>"

text \<open>
  The hook returned by \<^verbatim>\<open>defineStore(id, options)\<close> (store.ts, lines 66-81).  \<open>injected\<close> is what
  \<^verbatim>\<open>inject(stavueSymbol)\<close> gives: the registry, or nothing.  The registry is returned with
  its map as the call left it.
\<close>

definition useStore ::
  "string \<Rightarrow> 'w storeOptions \<Rightarrow> 'w stavue option \<Rightarrow> 'w machine \<Rightarrow>
     (error + addr) \<times> 'w stavue option \<times> 'w machine" where
  "useStore sid options injected m =
     (case injected of
        None \<Rightarrow> (Inl StavueNotFound, None, m)
      | Some sv \<Rightarrow>
          (case activeStores sv sid of
             None \<Rightarrow>
               (case setupStore sid options sv m of
                  (Inl e, m1) \<Rightarrow> (Inl e, Some sv, m1)
                | (Inr store0, m1) \<Rightarrow>
                    (Inr store0, Some (sv\<lparr>activeStores := (activeStores sv)(sid \<mapsto> store0)\<rparr>), m1))
           | Some store0 \<Rightarrow> (Inr store0, Some sv, m)))"

text \<open>\<open>n\<close> calls of the same hook, one after the other; the results in order.  A call that
  throws does not stop the caller from calling again.\<close>

fun useStoreTimes ::
  "nat \<Rightarrow> string \<Rightarrow> 'w storeOptions \<Rightarrow> 'w stavue option \<Rightarrow> 'w machine \<Rightarrow>
     (error + addr) list \<times> 'w stavue option \<times> 'w machine" where
  "useStoreTimes 0 sid options injected m = ([], injected, m)"
| "useStoreTimes (Suc n) sid options injected m =
     (case useStore sid options injected m of
        (r, injected1, m1) \<Rightarrow>
          (case useStoreTimes n sid options injected1 m1 of
             (rs, injected2, m2) \<Rightarrow> (r # rs, injected2, m2)))"

section \<open>Sequences of operations on a store\<close>

text \<open>A call that throws leaves the machine as it was.\<close>

definition orElse :: "'w machine option \<Rightarrow> 'w machine \<Rightarrow> 'w machine" where
  "orElse r m = (case r of None \<Rightarrow> m | Some m1 \<Rightarrow> m1)"

text \<open>What user code does with a store: \<^verbatim>\<open>instance[k] = v\<close>, \<^verbatim>\<open>instance[k].value = v\<close>,
  \<^verbatim>\<open>instance[k].value.p1. ... .pn.f = v\<close>, a write through the reactive state, \<^verbatim>\<open>$reset()\<close>,
  \<^verbatim>\<open>$subscribe(cb)\<close> and a call of the closure that \<^verbatim>\<open>$subscribe(cb)\<close> returned.\<close>

datatype user_op =
    OpAssign string val
  | OpHandleValue string val
  | OpThroughHandle string "string list" string val
  | OpStateSet "string list" string val
  | OpReset
  | OpSubscribe callback
  | OpUnsubscribe callback

fun runOp :: "addr \<Rightarrow> user_op \<Rightarrow> 'w machine \<Rightarrow> 'w machine" where
  "runOp a (OpAssign k v) m = assignProperty a k v m"
| "runOp a (OpHandleValue k v) m = orElse (setHandleValue a k v m) m"
| "runOp a (OpThroughHandle k path f v) m = orElse (setThroughHandle a k path f v m) m"
| "runOp a (OpStateSet path k v) m = orElse (stateSet a path k v m) m"
| "runOp a OpReset m = reset a m"
| "runOp a (OpSubscribe cb) m = subscribeAt a cb m"
| "runOp a (OpUnsubscribe cb) m = unsubscribeAt a cb m"

text \<open>A sequence of operations, each on the store at the address it names.\<close>

definition runOps :: "(addr \<times> user_op) list \<Rightarrow> 'w machine \<Rightarrow> 'w machine" where
  "runOps ops m = fold (\<lambda>p. runOp (fst p) (snd p)) ops m"

definition watcher_inv_at :: "addr \<Rightarrow> 'w machine \<Rightarrow> bool" where
  "watcher_inv_at a m = (case stores m a of None \<Rightarrow> False | Some s \<Rightarrow> watcher_inv s)"

text \<open>The store at \<open>a\<close> has a live state object and a snapshot object, and they are two
  objects.\<close>

definition wfStore :: "addr \<Rightarrow> 'w machine \<Rightarrow> bool" where
  "wfStore a m =
     (case stores m a of
        None \<Rightarrow> False
      | Some s \<Rightarrow>
          reactiveState s \<noteq> defaultState s \<and> heap m (reactiveState s) \<noteq> None \<and>
          heap m (defaultState s) \<noteq> None)"

definition sameObjects :: "'w machine \<Rightarrow> 'w machine \<Rightarrow> bool" where
  "sameObjects m m1 = (stores m1 = stores m \<and> dom (heap m1) = dom (heap m))"

section \<open>Example stores\<close>

text \<open>The store of the specification's examples: \<^verbatim>\<open>state: () => ({a: 1, b: 2})\<close>, no actions,
  no getters, in a registry without plugins, installed on an application.\<close>

definition abState :: jfields where
  "abState = JCons ''a'' (JNum 1) (JCons ''b'' (JNum 2) JNil)"

definition abOptions :: "unit storeOptions" where
  "abOptions = \<lparr>state = (\<lambda>w. (Inr abState, w)), actions = None, getters = None\<rparr>"

definition plainStavue :: "'w stavue" where
  "plainStavue = install 0 (createStavue None)"

definition abMachine :: "unit machine" where
  "abMachine = snd (snd (useStore ''ab'' abOptions (Some plainStavue) (init_machine ())))"

definition abStart :: "unit machine" where
  "abStart = snd (setupStore ''ab'' abOptions plainStavue (init_machine ()))"

section \<open>The property an assembled instance holds under a name\<close>

text \<open>The keys of an object literal, and the slot that the last assignment of the assembly
  order leaves under a name: built-in methods over getters over state handles over
  actions.\<close>

fun jkeys :: "jfields \<Rightarrow> string list" where
  "jkeys JNil = []"
| "jkeys (JCons k v fs) = k # jkeys fs"

definition slotAfterWiring :: "string list \<Rightarrow> string list \<Rightarrow> string list \<Rightarrow> string \<Rightarrow> slot option" where
  "slotAfterWiring acts stateKeys gets n =
     (if n = ''$subscribe'' then Some (Method Subscribe)
      else if n = ''$reset'' then Some (Method Reset)
      else if n \<in> set gets then Some (Getter n)
      else if n \<in> set stateKeys then Some (StateRef n)
      else if n \<in> set acts then Some (Action n)
      else None)"

definition clashState :: jfields where
  "clashState = JCons ''x'' (JNum 1) (JCons ''y'' (JNum 2) (JCons ''$reset'' (JNum 3) JNil))"

definition clashOptions :: "unit storeOptions" where
  "clashOptions =
     \<lparr>state = (\<lambda>w. (Inr clashState, w)),
      actions = Some [''x'', ''y'', ''go'', ''$subscribe''],
      getters = Some [''y'', ''$reset'']\<rparr>"

section \<open>Plugins that cannot throw, and what a plugin call is given\<close>

text \<open>In the plugin language a statement throws only by \<^verbatim>\<open>throw\<close>, or by calling
  \<^verbatim>\<open>$subscribe\<close> after the property was overwritten; a plugin list without \<^verbatim>\<open>throw\<close> and
  without an assignment to \<^verbatim>\<open>$subscribe\<close> is quiet.\<close>

fun cmdMayThrow :: "'w pcmd \<Rightarrow> bool" where
  "cmdMayThrow (PThrow msg) = True"
| "cmdMayThrow (PAssign k v) = (k = ''$subscribe'')"
| "cmdMayThrow (PSubscribe cb) = False"
| "cmdMayThrow (PSetId s) = False"
| "cmdMayThrow (PUser f) = False"

definition quietPlugins :: "'w plugin list \<Rightarrow> bool" where
  "quietPlugins ps = list_all (\<lambda>p. list_all (\<lambda>c. \<not> cmdMayThrow c) (pluginBody p)) ps"

definition canSubscribe :: "addr \<Rightarrow> 'w machine \<Rightarrow> bool" where
  "canSubscribe a m =
     (case stores m a of
        None \<Rightarrow> False
      | Some s \<Rightarrow> map_of (storeInstance s) ''$subscribe'' = Some (Method Subscribe))"

definition instKeys :: "'w machine \<Rightarrow> addr \<Rightarrow> string set" where
  "instKeys m a = (case stores m a of None \<Rightarrow> {} | Some s \<Rightarrow> fst ` set (storeInstance s))"

definition wiredNames :: "'w storeOptions \<Rightarrow> jfields \<Rightarrow> string set" where
  "wiredNames options lit =
     set (case actions options of None \<Rightarrow> [] | Some xs \<Rightarrow> xs) \<union> set (jkeys lit) \<union>
     set (case getters options of None \<Rightarrow> [] | Some xs \<Rightarrow> xs) \<union> {''$reset'', ''$subscribe''}"

text \<open>A plugin call is as \<^verbatim>\<open>setupStore\<close> makes it when its context names the store, the
  identifier and the application, and the instance already has all of \<open>names\<close>.\<close>

definition callOk :: "addr \<Rightarrow> string \<Rightarrow> app \<Rightarrow> string set \<Rightarrow> plugin_call \<Rightarrow> bool" where
  "callOk a sid ap names c =
     (pc_store c = a \<and> pc_id c = sid \<and> pc_app c = ap \<and> names \<subseteq> fst ` set (pc_instance c))"

section \<open>Example plugins and an example of a factory that throws once\<close>

text \<open>\<^verbatim>\<open>p1\<close> writes to its context and to the store; \<^verbatim>\<open>p2\<close> subscribes.  The factory of
  \<open>flakyOptions\<close> throws on its first call and returns the state on the next.\<close>

definition tagPlugin :: "unit plugin" where
  "tagPlugin = \<lparr>pluginName = ''p1'', pluginBody = [PSetId ''changed'', PAssign ''flag'' (VNum 1)]\<rparr>"

definition listenPlugin :: "unit plugin" where
  "listenPlugin = \<lparr>pluginName = ''p2'', pluginBody = [PSubscribe 7]\<rparr>"

definition pluginStavue :: "unit stavue" where
  "pluginStavue = install 0 (createStavue (Some \<lparr>cso_plugins = Some [tagPlugin, listenPlugin]\<rparr>))"

definition pluginRun :: "(error + addr) \<times> unit stavue option \<times> unit machine" where
  "pluginRun = useStore ''ab'' abOptions (Some pluginStavue) (init_machine ())"

definition flakyOptions :: "bool storeOptions" where
  "flakyOptions =
     \<lparr>state = (\<lambda>w. if w then (Inr abState, w) else (Inl (Thrown ''boom''), True)),
      actions = None, getters = None\<rparr>"

section \<open>Counting notifications\<close>

text \<open>The calls a callback has received; the fields in which the live state differs from
  the snapshot (missing on one side, or holding another value); and the calls one trigger
  makes to a callback.\<close>

definition deliveriesTo :: "callback \<Rightarrow> delivery list \<Rightarrow> nat" where
  "deliveriesTo cb ds = length (filter (\<lambda>d. d_callback d = cb) ds)"

definition fieldsToRestore :: "obj \<Rightarrow> obj \<Rightarrow> string list" where
  "fieldsToRestore live dflt =
     filter (\<lambda>k. map_of live k \<noteq> map_of dflt k) (remdups (map fst live @ map fst dflt))"

definition perTrigger :: "callback \<Rightarrow> store \<Rightarrow> nat" where
  "perTrigger cb s = length (activeWatchers s) * count_list (subscriptions s) cb"

section \<open>Further example stores\<close>

text \<open>A store with a nested object, \<^verbatim>\<open>state: () => ({n: {x: 1}})\<close>; the example store after
  \<^verbatim>\<open>instance.a.value = 5; instance.b.value = 9; instance.$subscribe(cb7)\<close>; and a registry
  whose only plugin throws.\<close>

definition nestedState :: jfields where
  "nestedState = JCons ''n'' (JObj (JCons ''x'' (JNum 1) JNil)) JNil"

definition nestedOptions :: "unit storeOptions" where
  "nestedOptions = \<lparr>state = (\<lambda>w. (Inr nestedState, w)), actions = None, getters = None\<rparr>"

definition nestedMachine :: "unit machine" where
  "nestedMachine = snd (snd (useStore ''nested'' nestedOptions (Some plainStavue) (init_machine ())))"

definition changedMachine :: "unit machine" where
  "changedMachine =
     runOps [(0, OpHandleValue ''a'' (VNum 5)), (0, OpHandleValue ''b'' (VNum 9)),
             (0, OpSubscribe 7)] abStart"

text \<open>The example store after \<^verbatim>\<open>instance.a = 99; instance.newField = 'x'\<close>, and after the
  same two writes made to the reactive state (\<^verbatim>\<open>instance.a.value = 99\<close> and
  \<^verbatim>\<open>state.newField = 'x'\<close>).\<close>

definition assignedMachine :: "unit machine" where
  "assignedMachine =
     runOps [(0, OpAssign ''a'' (VNum 99)), (0, OpAssign ''newField'' (VStr ''x''))] abStart"

definition writtenMachine :: "unit machine" where
  "writtenMachine =
     runOps [(0, OpHandleValue ''a'' (VNum 99)), (0, OpStateSet [] ''newField'' (VStr ''x''))]
       abStart"

text \<open>Subscribing, writing, resetting and unsubscribing in turn.\<close>

definition mixedOps :: "(addr \<times> user_op) list" where
  "mixedOps =
     [(0, OpSubscribe 1), (0, OpSubscribe 2), (0, OpHandleValue ''a'' (VNum 5)),
      (0, OpUnsubscribe 1), (0, OpReset), (0, OpUnsubscribe 2)]"

definition throwingStavue :: "bool stavue" where
  "throwingStavue =
     install 0 (createStavue (Some \<lparr>cso_plugins =
       Some [\<lparr>pluginName = ''bad'', pluginBody = [PThrow ''plugin failed'']\<rparr>]\<rparr>))"

definition throwingRun :: "(error + addr) \<times> bool stavue option \<times> bool machine" where
  "throwingRun = useStore ''ab'' flakyOptions (Some throwingStavue) (init_machine False)"

section \<open>Lemmas on the subscription manager\<close>

lemma indexOf_range: "indexOf xs x = - 1 \<or> (0 \<le> indexOf xs x \<and> indexOf xs x < int (length xs))"
  by (induction xs) (auto simp: Let_def)

lemma indexOf_notin: "x \<notin> set xs \<Longrightarrow> indexOf xs x = - 1"
  by (induction xs) (auto simp: Let_def)

lemma indexOf_in: "x \<in> set xs \<Longrightarrow> 0 \<le> indexOf xs x"
proof (induction xs)
  case Nil
  then show ?case by simp
next
  case (Cons y ys)
  show ?case
  proof (cases "y = x")
    case True
    then show ?thesis by simp
  next
    case False
    with Cons have "0 \<le> indexOf ys x" by simp
    with False show ?thesis by (simp add: Let_def)
  qed
qed

lemma splice1_indexOf: "x \<in> set xs \<Longrightarrow> splice1 xs (nat (indexOf xs x)) = remove1 x xs"
proof (induction xs)
  case Nil
  then show ?case by simp
next
  case (Cons y ys)
  show ?case
  proof (cases "y = x")
    case True
    then show ?thesis by (simp add: splice1_def)
  next
    case False
    with Cons.prems have mem: "x \<in> set ys" by simp
    then have nonneg: "0 \<le> indexOf ys x" by (rule indexOf_in)
    then have "nat (indexOf ys x + 1) = Suc (nat (indexOf ys x))" by simp
    with False nonneg Cons.IH [OF mem] show ?thesis
      by (auto simp: splice1_def Let_def)
  qed
qed

lemma unsubscribe_absent: "cb \<notin> set (subscriptions s) \<Longrightarrow> unsubscribe cb s = s"
  by (simp add: unsubscribe_def indexOf_notin)

lemma unsubscribe_subscriptions:
  "subscriptions (unsubscribe cb s) = remove1 cb (subscriptions s)"
proof (cases "cb \<in> set (subscriptions s)")
  case True
  then have "0 \<le> indexOf (subscriptions s) cb" by (rule indexOf_in)
  with True show ?thesis
    by (simp add: unsubscribe_def Let_def splice1_indexOf split: option.splits)
next
  case False
  then show ?thesis by (simp add: unsubscribe_absent remove1_idem)
qed

lemma watcher_inv_subscribe: "watcher_inv s \<Longrightarrow> watcher_inv (subscribe cb s)"
  by (auto simp: watcher_inv_def subscribe_def Let_def split: option.splits)

lemma watcher_inv_unsubscribe: "watcher_inv s \<Longrightarrow> watcher_inv (unsubscribe cb s)"
proof (cases "cb \<in> set (subscriptions s)")
  case False
  assume "watcher_inv s"
  with False show ?thesis by (simp add: unsubscribe_absent)
next
  case True
  assume inv: "watcher_inv s"
  from True have idx: "0 \<le> indexOf (subscriptions s) cb" by (rule indexOf_in)
  from True inv obtain h where h: "stopWatcher s = Some h" "activeWatchers s = [h]"
    by (cases "stopWatcher s") (auto simp: watcher_inv_def)
  from True idx h show ?thesis
    by (auto simp: watcher_inv_def unsubscribe_def Let_def splice1_indexOf)
qed

section \<open>The watcher invariant through assembly and subscription\<close>

lemma onStore_inv_at:
  assumes "\<And>s. watcher_inv s \<Longrightarrow> watcher_inv (f s)" and "watcher_inv_at a m"
  shows "watcher_inv_at a (onStore b f m)"
  using assms by (auto simp: watcher_inv_at_def onStore_def split: option.splits)

lemma runCmd_inv_at:
  assumes "runCmd c cmd m = (r, m1)" and "watcher_inv_at a m"
  shows "watcher_inv_at a m1"
proof (cases "c < length (contexts m)")
  case False
  with assms show ?thesis by (simp add: runCmd_def)
next
  case True
  show ?thesis
  proof (cases cmd)
    case (PAssign k v)
    with True assms(1) have "m1 = assignProperty (ctx_store (contexts m ! c)) k v m"
      by (simp add: runCmd_def Let_def)
    moreover have "watcher_inv_at a (assignProperty (ctx_store (contexts m ! c)) k v m)"
      unfolding assignProperty_def
      by (rule onStore_inv_at) (simp_all add: watcher_inv_def assms(2))
    ultimately show ?thesis by simp
  next
    case (PSubscribe cb)
    with True assms(1) have "m1 = m \<or> m1 = subscribeAt (ctx_store (contexts m ! c)) cb m"
      by (auto simp: runCmd_def Let_def split: option.splits slot.splits builtin.splits)
    moreover have "watcher_inv_at a (subscribeAt (ctx_store (contexts m ! c)) cb m)"
      unfolding subscribeAt_def
      by (rule onStore_inv_at) (simp_all add: watcher_inv_subscribe assms(2))
    ultimately show ?thesis using assms(2) by auto
  next
    case (PSetId s)
    with True assms show ?thesis by (auto simp: runCmd_def Let_def watcher_inv_at_def)
  next
    case (PUser f)
    with True assms show ?thesis by (auto simp: runCmd_def Let_def watcher_inv_at_def)
  next
    case (PThrow msg)
    with True assms show ?thesis by (auto simp: runCmd_def Let_def)
  qed
qed

lemma runCmds_inv_at:
  "runCmds c cmds m = (r, m1) \<Longrightarrow> watcher_inv_at a m \<Longrightarrow> watcher_inv_at a m1"
proof (induction cmds arbitrary: m)
  case Nil
  then show ?case by simp
next
  case (Cons cmd cmds)
  obtain r0 m0 where step: "runCmd c cmd m = (r0, m0)" by (cases "runCmd c cmd m")
  have inv0: "watcher_inv_at a m0" by (rule runCmd_inv_at [OF step Cons.prems(2)])
  show ?case
  proof (cases r0)
    case None
    with step Cons.prems(1) have "runCmds c cmds m0 = (r, m1)" by simp
    then show ?thesis using inv0 by (rule Cons.IH)
  next
    case (Some e)
    with step Cons.prems(1) have "m1 = m0" by simp
    with inv0 show ?thesis by simp
  qed
qed

lemma runPlugins_inv_at:
  "runPlugins ps b sid options ap m = (r, m1) \<Longrightarrow> watcher_inv_at a m \<Longrightarrow> watcher_inv_at a m1"
proof (induction ps arbitrary: m)
  case Nil
  then show ?case by simp
next
  case (Cons p ps)
  define m0 where "m0 = m\<lparr>contexts := contexts m @
                    [\<lparr>ctx_store = b, ctx_id = sid, ctx_options = options, ctx_app = ap\<rparr>],
                  pluginCalls := pluginCalls m @
                    [\<lparr>pc_plugin = pluginName p, pc_context = length (contexts m), pc_store = b, pc_id = sid,
                      pc_app = ap, pc_instance = (case stores m b of None \<Rightarrow> [] | Some s \<Rightarrow> storeInstance s)\<rparr>]\<rparr>"
  have inv0: "watcher_inv_at a m0" using Cons.prems(2) by (simp add: m0_def watcher_inv_at_def)
  obtain r2 m2 where body: "runCmds (length (contexts m)) (pluginBody p) m0 = (r2, m2)"
    by (cases "runCmds (length (contexts m)) (pluginBody p) m0")
  have inv2: "watcher_inv_at a m2" by (rule runCmds_inv_at [OF body inv0])
  show ?case
  proof (cases r2)
    case None
    with body Cons.prems(1) have "runPlugins ps b sid options ap m2 = (r, m1)"
      by (simp add: Let_def m0_def)
    then show ?thesis using inv2 by (rule Cons.IH)
  next
    case (Some e)
    with body Cons.prems(1) have "m1 = m2" by (simp add: Let_def m0_def)
    with inv2 show ?thesis by simp
  qed
qed

lemma allocObject_stores: "allocObject fs m = (a, m1) \<Longrightarrow> stores m1 = stores m \<and> nextStore m1 = nextStore m"
  by (auto simp: allocObject_def split: prod.splits)

lemma wireStore_store:
  assumes "wireStore sid options lit m = (a, m1)"
  shows "\<exists>s. stores m1 a = Some s \<and> subscriptions s = [] \<and> stopWatcher s = None \<and> activeWatchers s = [] \<and> storeId s = sid"
  using assms by (auto simp: wireStore_def Let_def split: prod.splits)

lemma wireStore_inv_at: "wireStore sid options lit m = (a, m1) \<Longrightarrow> watcher_inv_at a m1"
  using wireStore_store [of sid options lit m a m1]
  by (auto simp: watcher_inv_at_def watcher_inv_def)

lemma setupStore_inv_at:
  assumes "setupStore sid options sv m = (Inr a, m1)"
  shows "watcher_inv_at a m1"
proof -
  obtain r w where f: "state options (world m) = (r, w)" by (cases "state options (world m)")
  define m0 where "m0 = m\<lparr>world := w, factoryCalls := factoryCalls m @ [sid]\<rparr>"
  from assms f obtain lit where lit: "r = Inr lit"
    by (cases r) (auto simp: setupStore_def Let_def)
  obtain b mw where w: "wireStore sid options lit m0 = (b, mw)" by (cases "wireStore sid options lit m0")
  obtain rp mp where p: "runPlugins (plugins sv) b sid options (app sv) mw = (rp, mp)"
    by (cases "runPlugins (plugins sv) b sid options (app sv) mw")
  from assms f lit w p have "b = a" "mp = m1"
    by (auto simp: setupStore_def Let_def m0_def split: option.splits)
  with p w show ?thesis using runPlugins_inv_at wireStore_inv_at by blast
qed

section \<open>Calling an unsubscribe closure twice\<close>

lemma count_remove1_absent: "count_list xs x \<le> 1 \<Longrightarrow> x \<notin> set (remove1 x xs)"
proof -
  assume le: "count_list xs x \<le> 1"
  have "count_list (remove1 x xs) x = count_list xs x - 1" by simp
  with le have "count_list (remove1 x xs) x = 0" by linarith
  then show ?thesis using count_list_0_iff by metis
qed

lemma unsubscribe_twice:
  assumes "count_list (subscriptions s) cb \<le> 1"
  shows "unsubscribe cb (unsubscribe cb s) = unsubscribe cb s"
proof -
  from assms have "cb \<notin> set (subscriptions (unsubscribe cb s))"
    by (simp add: unsubscribe_subscriptions count_remove1_absent)
  then show ?thesis by (rule unsubscribe_absent)
qed

section \<open>Assembly order of the instance\<close>

lemma map_of_fold_update_add:
  "map_of (fold (\<lambda>x i. AList.update (f x) (g x) i) xs inst) n =
     (case map_of (map (\<lambda>x. (f x, g x)) (rev xs)) n of
        None \<Rightarrow> map_of inst n
      | Some y \<Rightarrow> Some y)"
proof (induction xs arbitrary: inst)
  case Nil
  then show ?case by simp
next
  case (Cons x xs)
  show ?case
    by (simp add: Cons.IH update_conv map_of_append map_add_def split: option.splits)
qed

lemma map_of_fold_update:
  "map_of (fold (\<lambda>x i. AList.update (f x) (g x) i) xs inst) n =
     (if n \<in> f ` set xs then map_of (map (\<lambda>x. (f x, g x)) (rev xs)) n else map_of inst n)"
proof (cases "n \<in> f ` set xs")
  case True
  then have "n \<in> fst ` set (map (\<lambda>x. (f x, g x)) (rev xs))" by (auto simp: image_iff)
  then obtain y where "map_of (map (\<lambda>x. (f x, g x)) (rev xs)) n = Some y"
    by (metis map_of_eq_None_iff not_Some_eq)
  with True show ?thesis by (simp add: map_of_fold_update_add)
next
  case False
  then have "n \<notin> fst ` set (map (\<lambda>x. (f x, g x)) (rev xs))" by (auto simp: image_iff)
  then have "map_of (map (\<lambda>x. (f x, g x)) (rev xs)) n = None"
    using map_of_eq_None_iff by metis
  with False show ?thesis by (simp add: map_of_fold_update_add)
qed

lemma map_of_keyed: "n \<in> set xs \<Longrightarrow> map_of (map (\<lambda>x. (x, g x)) ys) n = (if n \<in> set ys then Some (g n) else None)"
  by (induction ys) auto

lemma map_of_bindActions:
  "map_of (bindActionsToStoreInstance acts inst) n =
     (if n \<in> set acts then Some (Action n) else map_of inst n)"
  unfolding bindActionsToStoreInstance_def
  using map_of_fold_update [of "\<lambda>x. x" Action acts inst n] map_of_keyed [of n "rev acts" Action "rev acts"]
  by (auto split: if_splits)

lemma map_of_bindGetters:
  "map_of (bindGettersToStoreInstance gets inst) n =
     (if n \<in> set gets then Some (Getter n) else map_of inst n)"
  unfolding bindGettersToStoreInstance_def
  using map_of_fold_update [of "\<lambda>x. x" Getter gets inst n] map_of_keyed [of n "rev gets" Getter "rev gets"]
  by (auto split: if_splits)

lemma map_of_assignAll_other:
  "n \<notin> fst ` set src \<Longrightarrow> map_of (assignAll t src) n = map_of t n"
  unfolding assignAll_def
  using map_of_fold_update [of fst snd src t n] by simp

lemma map_of_keyed_pairs:
  "n \<in> fst ` set st \<Longrightarrow> map_of (map (\<lambda>x. (fst x, g (fst x))) st) n = Some (g n)"
  by (induction st) auto

lemma map_of_assignAll_toRefs:
  "map_of (assignAll t (toRefs st)) n =
     (if n \<in> fst ` set st then Some (StateRef n) else map_of t n)"
proof (cases "n \<in> fst ` set st")
  case False
  then have "n \<notin> fst ` set (toRefs st)" by (auto simp: toRefs_def image_iff)
  with False show ?thesis by (simp add: map_of_assignAll_other)
next
  case True
  then have mem: "n \<in> fst ` set (toRefs st)" by (force simp: toRefs_def image_iff)
  have "map_of (assignAll t (toRefs st)) n = map_of (map (\<lambda>x. (fst x, snd x)) (rev (toRefs st))) n"
    unfolding assignAll_def using map_of_fold_update [of fst snd "toRefs st" t n] mem by simp
  also have "map (\<lambda>x. (fst x, snd x)) (rev (toRefs st)) = map (\<lambda>x. (fst x, StateRef (fst x))) (rev st)"
    by (simp add: toRefs_def rev_map)
  also have "map_of \<dots> n = Some (StateRef n)"
    using True map_of_keyed_pairs [of n "rev st" StateRef] by simp
  finally show ?thesis using True by simp
qed

lemma map_of_assignState:
  "map_of (assignStateToStoreInstance st inst) n =
     (if n \<in> fst ` set st then Some (StateRef n) else map_of inst n)"
proof -
  have "n \<notin> fst ` set st \<Longrightarrow> n \<notin> fst ` set (map (\<lambda>p. (fst p, Plain (snd p))) st)"
    by (auto simp: image_iff)
  then show ?thesis
    by (simp add: assignStateToStoreInstance_def map_of_assignAll_toRefs map_of_assignAll_other)
qed

lemma map_of_bindMethods:
  "map_of (bindMethodsToStoreInstance methods_of_store inst) n =
     (if n = ''$subscribe'' then Some (Method Subscribe)
      else if n = ''$reset'' then Some (Method Reset) else map_of inst n)"
  by (simp add: bindMethodsToStoreInstance_def methods_of_store_def update_conv')

lemma alloc_keys:
  "fst ` set (fst (alloc_fields fs acc hn)) = fst ` set acc \<union> set (jkeys fs)"
proof (induction fs arbitrary: acc hn rule: jfields.induct [where ?P1.0 = "\<lambda>v. True"])
  case (JCons k v fs)
  obtain x hn1 where v: "alloc_val v hn = (x, hn1)" by (cases "alloc_val v hn")
  show ?case using JCons(2) [of "AList.update k x acc" hn1] v
    by (auto simp: dom_update)
qed simp_all

lemma allocObject_keys:
  "allocObject fs m = (a, m1) \<Longrightarrow> \<exists>props. heap m1 a = Some props \<and> fst ` set props = set (jkeys fs)"
  using alloc_keys [of fs "[]" "(heap m, nextAddr m)"]
  by (auto simp: allocObject_def split: prod.splits)

lemma alloc_preserves:
  "alloc_val v hn = (x, hn1) \<Longrightarrow> snd hn \<le> snd hn1 \<and> (\<forall>b<snd hn. fst hn1 b = fst hn b)"
  "alloc_fields fs acc hn = (ob, hn2) \<Longrightarrow> snd hn \<le> snd hn2 \<and> (\<forall>b<snd hn. fst hn2 b = fst hn b)"
proof (induction v hn and fs acc hn arbitrary: x hn1 and ob hn2 rule: alloc_val_alloc_fields.induct)
  case (1 n hn)
  then show ?case by simp
next
  case (2 s hn)
  then show ?case by simp
next
  case (3 fs hn)
  obtain ob0 h0 n0 where a: "alloc_fields fs [] hn = (ob0, h0, n0)"
    by (cases "alloc_fields fs [] hn") auto
  from 3(1) [OF a] have "snd hn \<le> n0" "\<forall>b<snd hn. h0 b = fst hn b" by simp_all
  moreover from 3(2) a have "hn1 = (h0(n0 \<mapsto> ob0), Suc n0)" by simp
  ultimately show ?case by auto
next
  case (4 acc hn)
  then show ?case by simp
next
  case (5 k v fs acc hn)
  obtain y hn' where v: "alloc_val v hn = (y, hn')" by (cases "alloc_val v hn")
  from 5(1) [OF v] have p1: "snd hn \<le> snd hn'" "\<forall>b<snd hn. fst hn' b = fst hn b" by simp_all
  from 5(3) v have "alloc_fields fs (AList.update k y acc) hn' = (ob, hn2)" by simp
  from 5(2) [OF v [symmetric] this]
  have p2: "snd hn' \<le> snd hn2" "\<forall>b<snd hn'. fst hn2 b = fst hn' b" by simp_all
  from p1 p2 show ?case by auto
qed

lemma allocObject_heap:
  assumes "allocObject fs m = (a, m1)"
  shows "a < nextAddr m1" and "nextAddr m \<le> a" and "\<forall>b<nextAddr m. heap m1 b = heap m b"
    and "stores m1 = stores m" and "nextStore m1 = nextStore m"
proof -
  obtain ob h n where al: "alloc_fields fs [] (heap m, nextAddr m) = (ob, h, n)"
    by (cases "alloc_fields fs [] (heap m, nextAddr m)") auto
  from alloc_preserves(2) [OF al] have p: "nextAddr m \<le> n" "\<forall>b<nextAddr m. h b = heap m b"
    by simp_all
  from assms al have eq: "a = n" "m1 = m\<lparr>heap := h(n \<mapsto> ob), nextAddr := Suc n\<rparr>"
    by (auto simp: allocObject_def)
  from eq p show "a < nextAddr m1" "nextAddr m \<le> a" "\<forall>b<nextAddr m. heap m1 b = heap m b"
    "stores m1 = stores m" "nextStore m1 = nextStore m"
    by auto
qed

lemma wireStore_instance:
  assumes "wireStore sid options lit m = (a, m1)"
  shows "\<exists>s. stores m1 a = Some s \<and>
           map_of (storeInstance s) n =
             slotAfterWiring (case actions options of None \<Rightarrow> [] | Some xs \<Rightarrow> xs) (jkeys lit)
               (case getters options of None \<Rightarrow> [] | Some xs \<Rightarrow> xs) n"
proof -
  define acts where "acts = (case actions options of None \<Rightarrow> [] | Some xs \<Rightarrow> xs)"
  define gets where "gets = (case getters options of None \<Rightarrow> [] | Some xs \<Rightarrow> xs)"
  obtain i mi where i: "allocObject lit m = (i, mi)" by (cases "allocObject lit m")
  obtain d md where d: "allocObject lit mi = (d, md)" by (cases "allocObject lit mi")
  from allocObject_keys [OF i] obtain props where
    props: "heap mi i = Some props" "fst ` set props = set (jkeys lit)" by blast
  from allocObject_heap(1) [OF i] allocObject_heap(3) [OF d] props(1)
  have "heap md i = Some props" by simp
  with assms i d have
    "map_option storeInstance (stores m1 a) =
       Some (bindMethodsToStoreInstance methods_of_store
              (bindGettersToStoreInstance gets
                (assignStateToStoreInstance props (bindActionsToStoreInstance acts []))))"
    unfolding acts_def gets_def by (auto simp: wireStore_def Let_def)
  then obtain s where s: "stores m1 a = Some s"
    "storeInstance s =
       bindMethodsToStoreInstance methods_of_store
         (bindGettersToStoreInstance gets
           (assignStateToStoreInstance props (bindActionsToStoreInstance acts [])))"
    by auto
  have "map_of (storeInstance s) n = slotAfterWiring acts (jkeys lit) gets n"
    unfolding s(2) slotAfterWiring_def
    by (simp add: map_of_bindMethods map_of_bindGetters map_of_assignState map_of_bindActions
        props(2))
  with s(1) show ?thesis unfolding acts_def gets_def by blast
qed

section \<open>Frame properties of plugin runs and of assembly\<close>

lemma onStore_frame:
  "factoryCalls (onStore a f m) = factoryCalls m"
  "pluginCalls (onStore a f m) = pluginCalls m"
  "contexts (onStore a f m) = contexts m"
  "heap (onStore a f m) = heap m"
  "deliveries (onStore a f m) = deliveries m"
  by (simp_all add: onStore_def split: option.splits)

lemma runCmd_frame:
  assumes "runCmd c cmd m = (r, m1)"
  shows "factoryCalls m1 = factoryCalls m" and "pluginCalls m1 = pluginCalls m"
    and "length (contexts m1) = length (contexts m)"
proof -
  have "factoryCalls m1 = factoryCalls m \<and> pluginCalls m1 = pluginCalls m \<and>
        length (contexts m1) = length (contexts m)"
  proof (cases "c < length (contexts m)")
    case False
    with assms show ?thesis by (simp add: runCmd_def)
  next
    case True
    with assms show ?thesis
      by (cases cmd)
        (auto simp: runCmd_def Let_def assignProperty_def subscribeAt_def onStore_frame
          split: option.splits slot.splits builtin.splits)
  qed
  then show "factoryCalls m1 = factoryCalls m" and "pluginCalls m1 = pluginCalls m"
    and "length (contexts m1) = length (contexts m)" by simp_all
qed

lemma runCmds_frame:
  "runCmds c cmds m = (r, m1) \<Longrightarrow>
     factoryCalls m1 = factoryCalls m \<and> pluginCalls m1 = pluginCalls m \<and>
     length (contexts m1) = length (contexts m)"
proof (induction cmds arbitrary: m)
  case Nil
  then show ?case by simp
next
  case (Cons cmd cmds)
  obtain r0 m0 where step: "runCmd c cmd m = (r0, m0)" by (cases "runCmd c cmd m")
  note fr = runCmd_frame [OF step]
  show ?case
  proof (cases r0)
    case None
    with step Cons.prems have "runCmds c cmds m0 = (r, m1)" by simp
    from Cons.IH [OF this] fr show ?thesis by simp
  next
    case (Some e)
    with step Cons.prems have "m1 = m0" by simp
    with fr show ?thesis by simp
  qed
qed

lemma runPlugins_factoryCalls:
  "runPlugins ps a sid options ap m = (r, m1) \<Longrightarrow> factoryCalls m1 = factoryCalls m"
proof (induction ps arbitrary: m)
  case Nil
  then show ?case by simp
next
  case (Cons p ps)
  define m0 where "m0 = m\<lparr>contexts := contexts m @
                    [\<lparr>ctx_store = a, ctx_id = sid, ctx_options = options, ctx_app = ap\<rparr>],
                  pluginCalls := pluginCalls m @
                    [\<lparr>pc_plugin = pluginName p, pc_context = length (contexts m), pc_store = a,
                      pc_id = sid, pc_app = ap,
                      pc_instance = (case stores m a of None \<Rightarrow> [] | Some s \<Rightarrow> storeInstance s)\<rparr>]\<rparr>"
  obtain r2 m2 where body: "runCmds (length (contexts m)) (pluginBody p) m0 = (r2, m2)"
    by (cases "runCmds (length (contexts m)) (pluginBody p) m0")
  from runCmds_frame [OF body] have f2: "factoryCalls m2 = factoryCalls m" by (simp add: m0_def)
  show ?case
  proof (cases r2)
    case None
    with body Cons.prems have "runPlugins ps a sid options ap m2 = (r, m1)"
      by (simp add: Let_def m0_def)
    from Cons.IH [OF this] f2 show ?thesis by simp
  next
    case (Some e)
    with body Cons.prems have "m1 = m2" by (simp add: Let_def m0_def)
    with f2 show ?thesis by simp
  qed
qed

lemma allocObject_frame:
  "allocObject fs m = (a, m1) \<Longrightarrow>
     factoryCalls m1 = factoryCalls m \<and> pluginCalls m1 = pluginCalls m \<and>
     contexts m1 = contexts m \<and> deliveries m1 = deliveries m \<and> world m1 = world m"
  by (auto simp: allocObject_def split: prod.splits)

lemma wireStore_frame:
  assumes "wireStore sid options lit m = (a, m1)"
  shows "factoryCalls m1 = factoryCalls m" and "pluginCalls m1 = pluginCalls m"
    and "contexts m1 = contexts m" and "a = nextStore m"
proof -
  obtain i mi where i: "allocObject lit m = (i, mi)" by (cases "allocObject lit m")
  obtain d md where d: "allocObject lit mi = (d, md)" by (cases "allocObject lit mi")
  from allocObject_frame [OF i] allocObject_frame [OF d]
  have fr: "factoryCalls md = factoryCalls m" "pluginCalls md = pluginCalls m"
    "contexts md = contexts m" by simp_all
  from allocObject_heap(5) [OF i] allocObject_heap(5) [OF d] have ns: "nextStore md = nextStore m"
    by simp
  from assms i d have "a = nextStore md"
    and "factoryCalls m1 = factoryCalls md" and "pluginCalls m1 = pluginCalls md"
    and "contexts m1 = contexts md"
    by (auto simp: wireStore_def Let_def)
  with fr ns show "factoryCalls m1 = factoryCalls m" and "pluginCalls m1 = pluginCalls m"
    and "contexts m1 = contexts m" and "a = nextStore m" by simp_all
qed

lemma setupStore_factoryCalls:
  assumes "setupStore sid options sv m = (r, m1)"
  shows "factoryCalls m1 = factoryCalls m @ [sid]"
proof -
  obtain r0 w where f: "state options (world m) = (r0, w)" by (cases "state options (world m)")
  define m0 where "m0 = m\<lparr>world := w, factoryCalls := factoryCalls m @ [sid]\<rparr>"
  show ?thesis
  proof (cases r0)
    case (Inl e)
    with assms f show ?thesis by (auto simp: setupStore_def Let_def)
  next
    case (Inr lit)
    obtain b mw where w: "wireStore sid options lit m0 = (b, mw)"
      by (cases "wireStore sid options lit m0")
    obtain rp mp where p: "runPlugins (plugins sv) b sid options (app sv) mw = (rp, mp)"
      by (cases "runPlugins (plugins sv) b sid options (app sv) mw")
    from assms f Inr w p have "m1 = mp"
      by (auto simp: setupStore_def Let_def m0_def split: option.splits)
    with runPlugins_factoryCalls [OF p] wireStore_frame(1) [OF w] show ?thesis
      by (simp add: m0_def)
  qed
qed

lemma useStore_cached:
  "activeStores sv sid = Some a \<Longrightarrow> useStore sid options (Some sv) m = (Inr a, Some sv, m)"
  by (simp add: useStore_def)

lemma useStoreTimes_cached:
  "activeStores sv sid = Some a \<Longrightarrow>
     useStoreTimes n sid options (Some sv) m = (replicate n (Inr a), Some sv, m)"
  by (induction n) (simp_all add: useStore_cached)

lemma useStore_success:
  assumes "useStore sid options (Some sv) m = (Inr a, injected1, m1)"
  shows "\<exists>sv1. injected1 = Some sv1 \<and> activeStores sv1 sid = Some a \<and> plugins sv1 = plugins sv \<and>
           app sv1 = app sv"
    and "factoryCalls m1 = factoryCalls m @ (if activeStores sv sid = None then [sid] else [])"
proof -
  show "\<exists>sv1. injected1 = Some sv1 \<and> activeStores sv1 sid = Some a \<and> plugins sv1 = plugins sv \<and>
           app sv1 = app sv"
    using assms by (auto simp: useStore_def split: option.splits prod.splits sum.splits)
  show "factoryCalls m1 = factoryCalls m @ (if activeStores sv sid = None then [sid] else [])"
  proof (cases "activeStores sv sid")
    case None
    obtain r ms where s: "setupStore sid options sv m = (r, ms)"
      by (cases "setupStore sid options sv m")
    with assms None have "m1 = ms" by (auto simp: useStore_def split: sum.splits)
    with setupStore_factoryCalls [OF s] None show ?thesis by simp
  next
    case (Some b)
    with assms show ?thesis by (simp add: useStore_def)
  qed
qed

section \<open>Quiet plugins finish\<close>

lemma subscribe_instance: "storeInstance (subscribe cb s) = storeInstance s"
  by (simp add: subscribe_def Let_def split: option.splits)

lemma runCmd_quiet:
  assumes "c < length (contexts m)" and "ctx_store (contexts m ! c) = a" and "canSubscribe a m"
    and "\<not> cmdMayThrow cmd"
  shows "\<exists>m1. runCmd c cmd m = (None, m1) \<and> c < length (contexts m1) \<and>
           ctx_store (contexts m1 ! c) = a \<and> canSubscribe a m1"
proof -
  from assms(3) obtain s where s: "stores m a = Some s"
    "map_of (storeInstance s) ''$subscribe'' = Some (Method Subscribe)"
    by (auto simp: canSubscribe_def split: option.splits)
  show ?thesis
  proof (cases cmd)
    case (PAssign k v)
    with assms(4) have "k \<noteq> ''$subscribe''" by simp
    with PAssign assms(1,2) s show ?thesis
      by (simp add: runCmd_def Let_def assignProperty_def onStore_def canSubscribe_def update_conv')
  next
    case (PSubscribe cb)
    with assms(1,2) s show ?thesis
      by (simp add: runCmd_def Let_def subscribeAt_def onStore_def canSubscribe_def
          subscribe_instance)
  next
    case (PSetId x)
    with assms(1,2,3) show ?thesis
      by (simp add: runCmd_def Let_def canSubscribe_def)
  next
    case (PUser f)
    with assms(1,2,3) show ?thesis
      by (simp add: runCmd_def Let_def canSubscribe_def)
  next
    case (PThrow msg)
    with assms(4) show ?thesis by simp
  qed
qed

lemma runCmds_quiet:
  "c < length (contexts m) \<Longrightarrow> ctx_store (contexts m ! c) = a \<Longrightarrow> canSubscribe a m \<Longrightarrow>
   list_all (\<lambda>c. \<not> cmdMayThrow c) cmds \<Longrightarrow>
   \<exists>m1. runCmds c cmds m = (None, m1) \<and> canSubscribe a m1"
proof (induction cmds arbitrary: m)
  case Nil
  then show ?case by simp
next
  case (Cons cmd cmds)
  from Cons.prems(4) have q: "\<not> cmdMayThrow cmd" "list_all (\<lambda>c. \<not> cmdMayThrow c) cmds"
    by simp_all
  from runCmd_quiet [OF Cons.prems(1,2,3) q(1)] obtain m0 where
    m0: "runCmd c cmd m = (None, m0)" "c < length (contexts m0)"
      "ctx_store (contexts m0 ! c) = a" "canSubscribe a m0" by blast
  from Cons.IH [OF m0(2,3,4) q(2)] m0(1) show ?case by simp
qed

lemma runPlugins_quiet:
  "canSubscribe a m \<Longrightarrow> quietPlugins ps \<Longrightarrow>
   \<exists>m1. runPlugins ps a sid options ap m = (None, m1) \<and> canSubscribe a m1"
proof (induction ps arbitrary: m)
  case Nil
  then show ?case by simp
next
  case (Cons p ps)
  define m0 where "m0 = m\<lparr>contexts := contexts m @
                    [\<lparr>ctx_store = a, ctx_id = sid, ctx_options = options, ctx_app = ap\<rparr>],
                  pluginCalls := pluginCalls m @
                    [\<lparr>pc_plugin = pluginName p, pc_context = length (contexts m), pc_store = a,
                      pc_id = sid, pc_app = ap,
                      pc_instance = (case stores m a of None \<Rightarrow> [] | Some s \<Rightarrow> storeInstance s)\<rparr>]\<rparr>"
  from Cons.prems(2) have q: "list_all (\<lambda>c. \<not> cmdMayThrow c) (pluginBody p)" "quietPlugins ps"
    by (simp_all add: quietPlugins_def)
  have c0: "length (contexts m) < length (contexts m0)"
    "ctx_store (contexts m0 ! length (contexts m)) = a" "canSubscribe a m0"
    using Cons.prems(1) by (simp_all add: m0_def canSubscribe_def)
  from runCmds_quiet [OF c0 q(1)] obtain m2 where
    m2: "runCmds (length (contexts m)) (pluginBody p) m0 = (None, m2)" "canSubscribe a m2"
    by blast
  from Cons.IH [OF m2(2) q(2)] obtain m1 where
    "runPlugins ps a sid options ap m2 = (None, m1)" "canSubscribe a m1" by blast
  with m2(1) show ?case by (simp add: Let_def m0_def)
qed

lemma wireStore_canSubscribe:
  assumes "wireStore sid options lit m = (a, m1)"
  shows "canSubscribe a m1"
  using wireStore_instance [OF assms, of "''$subscribe''"]
  by (auto simp: canSubscribe_def slotAfterWiring_def)

lemma setupStore_quiet:
  assumes "state options (world m) = (Inr lit, w)" and "quietPlugins (plugins sv)"
  shows "\<exists>m1. setupStore sid options sv m = (Inr (nextStore m), m1)"
proof -
  define m0 where "m0 = m\<lparr>world := w, factoryCalls := factoryCalls m @ [sid]\<rparr>"
  obtain b mw where w: "wireStore sid options lit m0 = (b, mw)"
    by (cases "wireStore sid options lit m0")
  from wireStore_frame(4) [OF w] have b: "b = nextStore m" by (simp add: m0_def)
  from runPlugins_quiet [OF wireStore_canSubscribe [OF w] assms(2)] obtain mp where
    "runPlugins (plugins sv) b sid options (app sv) mw = (None, mp)" by blast
  with assms(1) w b show ?thesis by (simp add: setupStore_def Let_def m0_def)
qed

section \<open>The log of plugin calls\<close>

lemma update_keys_grow: "fst ` set al \<subseteq> fst ` set (AList.update k v al)"
  by (auto simp: dom_update)

lemma onStore_instKeys:
  assumes "\<And>s. fst ` set (storeInstance s) \<subseteq> fst ` set (storeInstance (f s))"
  shows "instKeys m a \<subseteq> instKeys (onStore b f m) a"
proof (cases "stores m b")
  case None
  then show ?thesis by (simp add: onStore_def)
next
  case (Some s)
  show ?thesis
  proof (cases "a = b")
    case True
    with Some assms [of s] show ?thesis by (simp add: instKeys_def onStore_def)
  next
    case False
    with Some show ?thesis by (simp add: instKeys_def onStore_def)
  qed
qed

lemma runCmd_instKeys:
  assumes "runCmd c cmd m = (r, m1)"
  shows "instKeys m a \<subseteq> instKeys m1 a"
proof (cases "c < length (contexts m)")
  case False
  with assms show ?thesis by (simp add: runCmd_def)
next
  case True
  show ?thesis
  proof (cases cmd)
    case (PAssign k v)
    with True assms have "m1 = assignProperty (ctx_store (contexts m ! c)) k v m"
      by (simp add: runCmd_def Let_def)
    moreover have "instKeys m a \<subseteq> instKeys (assignProperty (ctx_store (contexts m ! c)) k v m) a"
      unfolding assignProperty_def by (rule onStore_instKeys) (simp add: update_keys_grow)
    ultimately show ?thesis by simp
  next
    case (PSubscribe cb)
    with True assms have "m1 = m \<or> m1 = subscribeAt (ctx_store (contexts m ! c)) cb m"
      by (auto simp: runCmd_def Let_def split: option.splits slot.splits builtin.splits)
    moreover have "instKeys m a \<subseteq> instKeys (subscribeAt (ctx_store (contexts m ! c)) cb m) a"
      unfolding subscribeAt_def by (rule onStore_instKeys) (simp add: subscribe_instance)
    ultimately show ?thesis by auto
  next
    case (PSetId x)
    with True assms show ?thesis by (auto simp: runCmd_def Let_def instKeys_def)
  next
    case (PUser f)
    with True assms show ?thesis by (auto simp: runCmd_def Let_def instKeys_def)
  next
    case (PThrow msg)
    with True assms show ?thesis by (auto simp: runCmd_def Let_def)
  qed
qed

lemma runCmds_instKeys:
  "runCmds c cmds m = (r, m1) \<Longrightarrow> instKeys m a \<subseteq> instKeys m1 a"
proof (induction cmds arbitrary: m)
  case Nil
  then show ?case by simp
next
  case (Cons cmd cmds)
  obtain r0 m0 where step: "runCmd c cmd m = (r0, m0)" by (cases "runCmd c cmd m")
  note k0 = runCmd_instKeys [OF step, of a]
  show ?case
  proof (cases r0)
    case None
    with step Cons.prems have "runCmds c cmds m0 = (r, m1)" by simp
    from Cons.IH [OF this] k0 show ?thesis by blast
  next
    case (Some e)
    with step Cons.prems have "m1 = m0" by simp
    with k0 show ?thesis by simp
  qed
qed

lemma runPlugins_calls:
  "runPlugins ps a sid options ap m = (None, m1) \<Longrightarrow> names \<subseteq> instKeys m a \<Longrightarrow>
   \<exists>calls. pluginCalls m1 = pluginCalls m @ calls \<and>
     map pc_plugin calls = map pluginName ps \<and>
     map pc_context calls = [length (contexts m)..<length (contexts m) + length ps] \<and>
     list_all (callOk a sid ap names) calls"
proof (induction ps arbitrary: m)
  case Nil
  then show ?case by simp
next
  case (Cons p ps)
  define call where "call = \<lparr>pc_plugin = pluginName p, pc_context = length (contexts m), pc_store = a,
                      pc_id = sid, pc_app = ap,
                      pc_instance = (case stores m a of None \<Rightarrow> [] | Some s \<Rightarrow> storeInstance s)\<rparr>"
  define m0 where "m0 = m\<lparr>contexts := contexts m @
                    [\<lparr>ctx_store = a, ctx_id = sid, ctx_options = options, ctx_app = ap\<rparr>],
                  pluginCalls := pluginCalls m @ [call]\<rparr>"
  obtain r2 m2 where body: "runCmds (length (contexts m)) (pluginBody p) m0 = (r2, m2)"
    by (cases "runCmds (length (contexts m)) (pluginBody p) m0")
  from Cons.prems(1) body have r2: "r2 = None"
    by (cases r2) (simp_all add: Let_def m0_def call_def)
  with Cons.prems(1) body have rest: "runPlugins ps a sid options ap m2 = (None, m1)"
    by (simp add: Let_def m0_def call_def)
  from runCmds_frame [OF body] have fr: "pluginCalls m2 = pluginCalls m @ [call]"
    "length (contexts m2) = Suc (length (contexts m))" by (simp_all add: m0_def)
  have "instKeys m0 a = instKeys m a" by (simp add: m0_def instKeys_def)
  with runCmds_instKeys [OF body, of a] Cons.prems(2) have "names \<subseteq> instKeys m2 a" by blast
  from Cons.IH [OF rest this] obtain calls where
    calls: "pluginCalls m1 = pluginCalls m2 @ calls" "map pc_plugin calls = map pluginName ps"
      "map pc_context calls = [length (contexts m2)..<length (contexts m2) + length ps]"
      "list_all (callOk a sid ap names) calls" by blast
  have ok: "callOk a sid ap names call"
    using Cons.prems(2) by (auto simp: callOk_def call_def instKeys_def split: option.splits)
  have "[length (contexts m)..<length (contexts m) + length (p # ps)] =
        length (contexts m) # [Suc (length (contexts m))..<Suc (length (contexts m)) + length ps]"
    by (subst upt_rec) simp
  with calls fr ok have
    "pluginCalls m1 = pluginCalls m @ (call # calls) \<and>
     map pc_plugin (call # calls) = map pluginName (p # ps) \<and>
     map pc_context (call # calls) = [length (contexts m)..<length (contexts m) + length (p # ps)] \<and>
     list_all (callOk a sid ap names) (call # calls)"
    by (simp add: call_def)
  then show ?case by blast
qed

lemma wireStore_instKeys:
  assumes "wireStore sid options lit m = (a, m1)"
  shows "wiredNames options lit \<subseteq> instKeys m1 a"
proof
  fix n
  assume n: "n \<in> wiredNames options lit"
  from wireStore_instance [OF assms, of n] obtain s where
    s: "stores m1 a = Some s"
      "map_of (storeInstance s) n =
         slotAfterWiring (case actions options of None \<Rightarrow> [] | Some xs \<Rightarrow> xs) (jkeys lit)
           (case getters options of None \<Rightarrow> [] | Some xs \<Rightarrow> xs) n" by blast
  from n have "slotAfterWiring (case actions options of None \<Rightarrow> [] | Some xs \<Rightarrow> xs) (jkeys lit)
           (case getters options of None \<Rightarrow> [] | Some xs \<Rightarrow> xs) n \<noteq> None"
    by (auto simp: wiredNames_def slotAfterWiring_def)
  with s(2) have "map_of (storeInstance s) n \<noteq> None" by simp
  then have "n \<in> fst ` set (storeInstance s)" by (simp add: map_of_eq_None_iff)
  with s(1) show "n \<in> instKeys m1 a" by (simp add: instKeys_def)
qed

section \<open>What one reset writes and notifies\<close>

lemma deliveriesTo_append [simp]:
  "deliveriesTo cb (xs @ ys) = deliveriesTo cb xs + deliveriesTo cb ys"
  by (simp add: deliveriesTo_def)

lemma deliveriesTo_Nil [simp]: "deliveriesTo cb [] = 0"
  by (simp add: deliveriesTo_def)

lemma deliveriesTo_notify: "deliveriesTo cb (notify s st) = count_list (subscriptions s) cb"
proof -
  have "length (filter (\<lambda>d. d_callback d = cb)
          (map (\<lambda>c. \<lparr>d_callback = c, d_storeId = i, d_type = t, d_state = st\<rparr>) xs)) =
        count_list xs cb" for xs i t
    by (induction xs) simp_all
  then show ?thesis by (simp add: deliveriesTo_def notify_def)
qed

lemma deliveriesTo_watchers:
  "deliveriesTo cb (concat (map (\<lambda>h. notify s st) ws)) = length ws * count_list (subscriptions s) cb"
  by (induction ws) (simp_all add: deliveriesTo_notify)

lemma trigger_props:
  assumes "stores m a = Some s" and "heap m (reactiveState s) = Some st"
  shows "heap (trigger a m) = heap m" and "stores (trigger a m) = stores m"
    and "deliveriesTo cb (deliveries (trigger a m)) = deliveriesTo cb (deliveries m) + perTrigger cb s"
  using assms by (simp_all add: trigger_def deliveriesTo_watchers perTrigger_def)

lemma reactiveDelete_props:
  assumes "stores m a = Some s" and "heap m (reactiveState s) = Some lv"
  shows "\<exists>lv'. heap (reactiveDelete a (reactiveState s) k m) = (heap m)(reactiveState s \<mapsto> lv') \<and>
           map_of lv' = (map_of lv)(k := None)"
    and "stores (reactiveDelete a (reactiveState s) k m) = stores m"
    and "deliveriesTo cb (deliveries (reactiveDelete a (reactiveState s) k m)) =
           deliveriesTo cb (deliveries m) + (if map_of lv k = None then 0 else perTrigger cb s)"
proof -
  let ?m1 = "m\<lparr>heap := (heap m)(reactiveState s \<mapsto> AList.delete k lv)\<rparr>"
  have s1: "stores ?m1 a = Some s" "heap ?m1 (reactiveState s) = Some (AList.delete k lv)"
    using assms by simp_all
  note t = trigger_props [OF s1]
  show "\<exists>lv'. heap (reactiveDelete a (reactiveState s) k m) = (heap m)(reactiveState s \<mapsto> lv') \<and>
           map_of lv' = (map_of lv)(k := None)"
  proof (cases "map_of lv k = None")
    case True
    with assms have "heap (reactiveDelete a (reactiveState s) k m) = (heap m)(reactiveState s \<mapsto> lv)"
      by (auto simp: reactiveDelete_def)
    moreover from True have "map_of lv = (map_of lv)(k := None)" by (simp add: fun_eq_iff)
    ultimately show ?thesis by blast
  next
    case False
    with assms t(1) have
      "heap (reactiveDelete a (reactiveState s) k m) = (heap m)(reactiveState s \<mapsto> AList.delete k lv)"
      by (cases "map_of lv k") (simp_all add: reactiveDelete_def)
    then show ?thesis by (auto simp: delete_conv')
  qed
  show "stores (reactiveDelete a (reactiveState s) k m) = stores m"
    using assms t(2) by (cases "map_of lv k") (simp_all add: reactiveDelete_def)
  show "deliveriesTo cb (deliveries (reactiveDelete a (reactiveState s) k m)) =
           deliveriesTo cb (deliveries m) + (if map_of lv k = None then 0 else perTrigger cb s)"
    using assms t(3) [of cb] by (cases "map_of lv k") (simp_all add: reactiveDelete_def)
qed

lemma reactiveSet_props:
  assumes "stores m a = Some s" and "heap m (reactiveState s) = Some lv"
  shows "\<exists>lv'. heap (reactiveSet a (reactiveState s) k v m) = (heap m)(reactiveState s \<mapsto> lv') \<and>
           map_of lv' = (map_of lv)(k \<mapsto> v)"
    and "stores (reactiveSet a (reactiveState s) k v m) = stores m"
    and "deliveriesTo cb (deliveries (reactiveSet a (reactiveState s) k v m)) =
           deliveriesTo cb (deliveries m) + (if map_of lv k = Some v then 0 else perTrigger cb s)"
proof -
  let ?m1 = "m\<lparr>heap := (heap m)(reactiveState s \<mapsto> AList.update k v lv)\<rparr>"
  have s1: "stores ?m1 a = Some s" "heap ?m1 (reactiveState s) = Some (AList.update k v lv)"
    using assms by simp_all
  note t = trigger_props [OF s1]
  have "heap (reactiveSet a (reactiveState s) k v m) = (heap m)(reactiveState s \<mapsto> AList.update k v lv)"
    using assms t(1) by (simp add: reactiveSet_def Let_def)
  then show "\<exists>lv'. heap (reactiveSet a (reactiveState s) k v m) = (heap m)(reactiveState s \<mapsto> lv') \<and>
           map_of lv' = (map_of lv)(k \<mapsto> v)"
    by (auto simp: update_conv')
  show "stores (reactiveSet a (reactiveState s) k v m) = stores m"
    using assms t(2) by (simp add: reactiveSet_def Let_def)
  show "deliveriesTo cb (deliveries (reactiveSet a (reactiveState s) k v m)) =
           deliveriesTo cb (deliveries m) + (if map_of lv k = Some v then 0 else perTrigger cb s)"
    using assms t(3) [of cb] by (simp add: reactiveSet_def Let_def)
qed

lemma hasOwnProperty_heap:
  "heap m ob = Some props \<Longrightarrow> hasOwnProperty m ob k = (map_of props k \<noteq> None)"
  by (simp add: hasOwnProperty_def)

lemma fold_resetStep:
  assumes "stores m a = Some s" and "reactiveState s \<noteq> defaultState s"
    and "heap m (reactiveState s) = Some lv" and "heap m (defaultState s) = Some dflt"
  shows "\<exists>lv'. heap (fold (resetStep a s) ks m) (reactiveState s) = Some lv' \<and>
           map_of lv' = (\<lambda>k. if k \<in> set ks \<and> map_of dflt k = None then None else map_of lv k) \<and>
           heap (fold (resetStep a s) ks m) (defaultState s) = Some dflt \<and>
           stores (fold (resetStep a s) ks m) = stores m \<and>
           deliveriesTo cb (deliveries (fold (resetStep a s) ks m)) =
             deliveriesTo cb (deliveries m) +
             perTrigger cb s * card {k \<in> set ks. map_of lv k \<noteq> None \<and> map_of dflt k = None}"
  using assms
proof (induction ks arbitrary: m lv)
  case Nil
  then show ?case by simp
next
  case (Cons k ks)
  let ?S = "\<lambda>l ks. {k' \<in> set ks. map_of l k' \<noteq> None \<and> map_of dflt k' = None}"
  show ?case
  proof (cases "map_of dflt k = None")
    case False
    with Cons.prems have step: "resetStep a s k m = m"
      by (simp add: resetStep_def hasOwnProperty_heap)
    from Cons.IH [OF Cons.prems] obtain lv' where
      ih: "heap (fold (resetStep a s) ks m) (reactiveState s) = Some lv'"
        "map_of lv' = (\<lambda>k. if k \<in> set ks \<and> map_of dflt k = None then None else map_of lv k)"
        "heap (fold (resetStep a s) ks m) (defaultState s) = Some dflt"
        "stores (fold (resetStep a s) ks m) = stores m"
        "deliveriesTo cb (deliveries (fold (resetStep a s) ks m)) =
           deliveriesTo cb (deliveries m) + perTrigger cb s * card (?S lv ks)"
      by blast
    from False have "?S lv (k # ks) = ?S lv ks" by auto
    moreover from False ih(2) have
      "map_of lv' = (\<lambda>k'. if k' \<in> set (k # ks) \<and> map_of dflt k' = None then None else map_of lv k')"
      by (auto simp: fun_eq_iff)
    ultimately show ?thesis using ih step by simp
  next
    case True
    let ?m1 = "reactiveDelete a (reactiveState s) k m"
    from True Cons.prems have step: "resetStep a s k m = ?m1"
      by (simp add: resetStep_def hasOwnProperty_heap)
    from reactiveDelete_props(1) [OF Cons.prems(1,3), of k] obtain lv1 where
      lv1: "heap ?m1 = (heap m)(reactiveState s \<mapsto> lv1)" "map_of lv1 = (map_of lv)(k := None)"
      by blast
    have st1: "stores ?m1 = stores m" by (rule reactiveDelete_props(2) [OF Cons.prems(1,3)])
    have d1: "deliveriesTo cb (deliveries ?m1) =
        deliveriesTo cb (deliveries m) + (if map_of lv k = None then 0 else perTrigger cb s)"
      by (rule reactiveDelete_props(3) [OF Cons.prems(1,3)])
    have p1: "stores ?m1 a = Some s" "heap ?m1 (reactiveState s) = Some lv1"
      "heap ?m1 (defaultState s) = Some dflt"
      using st1 lv1(1) Cons.prems by simp_all
    from Cons.IH [OF p1(1) Cons.prems(2) p1(2,3)] obtain lv' where
      ih: "heap (fold (resetStep a s) ks ?m1) (reactiveState s) = Some lv'"
        "map_of lv' = (\<lambda>k. if k \<in> set ks \<and> map_of dflt k = None then None else map_of lv1 k)"
        "heap (fold (resetStep a s) ks ?m1) (defaultState s) = Some dflt"
        "stores (fold (resetStep a s) ks ?m1) = stores ?m1"
        "deliveriesTo cb (deliveries (fold (resetStep a s) ks ?m1)) =
           deliveriesTo cb (deliveries ?m1) + perTrigger cb s * card (?S lv1 ks)"
      by blast
    have s1: "?S lv1 ks = ?S lv ks - {k}" using lv1(2) by auto
    have fin: "finite (?S lv ks - {k})" by simp
    have cardS: "card (?S lv (k # ks)) = (if map_of lv k = None then 0 else 1) + card (?S lv ks - {k})"
    proof (cases "map_of lv k = None")
      case None: True
      then have "?S lv (k # ks) = ?S lv ks - {k}" by auto
      with None show ?thesis by simp
    next
      case False
      with True have "?S lv (k # ks) = insert k (?S lv ks)" by auto
      moreover have "finite (?S lv ks)" by simp
      ultimately have "card (?S lv (k # ks)) = Suc (card (?S lv ks - {k}))"
        by (simp only: card.insert_remove)
      with False show ?thesis by simp
    qed
    have m': "map_of lv' =
        (\<lambda>k'. if k' \<in> set (k # ks) \<and> map_of dflt k' = None then None else map_of lv k')"
      using ih(2) lv1(2) True by (auto simp: fun_eq_iff)
    have "deliveriesTo cb (deliveries (fold (resetStep a s) (k # ks) m)) =
        deliveriesTo cb (deliveries m) + perTrigger cb s * card (?S lv (k # ks))"
      using ih(5) d1 s1 cardS step by (simp add: algebra_simps)
    with ih(1,3,4) st1 step m' show ?thesis by simp
  qed
qed

lemma fold_assignStep:
  assumes "stores m a = Some s" and "reactiveState s \<noteq> defaultState s"
    and "heap m (reactiveState s) = Some lv" and "heap m (defaultState s) = Some dflt"
  shows "\<exists>lv'. heap (fold (assignStep a (reactiveState s) (defaultState s)) ks m) (reactiveState s) =
             Some lv' \<and>
           map_of lv' =
             (\<lambda>k. if k \<in> set ks \<and> map_of dflt k \<noteq> None then map_of dflt k else map_of lv k) \<and>
           heap (fold (assignStep a (reactiveState s) (defaultState s)) ks m) (defaultState s) =
             Some dflt \<and>
           stores (fold (assignStep a (reactiveState s) (defaultState s)) ks m) = stores m \<and>
           deliveriesTo cb (deliveries (fold (assignStep a (reactiveState s) (defaultState s)) ks m)) =
             deliveriesTo cb (deliveries m) +
             perTrigger cb s *
               card {k \<in> set ks. map_of dflt k \<noteq> None \<and> map_of lv k \<noteq> map_of dflt k}"
  using assms
proof (induction ks arbitrary: m lv)
  case Nil
  then show ?case by simp
next
  case (Cons k ks)
  let ?f = "assignStep a (reactiveState s) (defaultState s)"
  let ?S = "\<lambda>l ks. {k' \<in> set ks. map_of dflt k' \<noteq> None \<and> map_of l k' \<noteq> map_of dflt k'}"
  show ?case
  proof (cases "map_of dflt k")
    case None
    with Cons.prems have step: "?f k m = m" by (simp add: assignStep_def)
    from Cons.IH [OF Cons.prems] obtain lv' where
      ih: "heap (fold ?f ks m) (reactiveState s) = Some lv'"
        "map_of lv' =
           (\<lambda>k. if k \<in> set ks \<and> map_of dflt k \<noteq> None then map_of dflt k else map_of lv k)"
        "heap (fold ?f ks m) (defaultState s) = Some dflt"
        "stores (fold ?f ks m) = stores m"
        "deliveriesTo cb (deliveries (fold ?f ks m)) =
           deliveriesTo cb (deliveries m) + perTrigger cb s * card (?S lv ks)"
      by blast
    from None have "?S lv (k # ks) = ?S lv ks" by auto
    moreover from None ih(2) have
      "map_of lv' =
         (\<lambda>k'. if k' \<in> set (k # ks) \<and> map_of dflt k' \<noteq> None then map_of dflt k' else map_of lv k')"
      by (auto simp: fun_eq_iff)
    ultimately show ?thesis using ih step by simp
  next
    case (Some v)
    let ?m1 = "reactiveSet a (reactiveState s) k v m"
    from Some Cons.prems have step: "?f k m = ?m1" by (simp add: assignStep_def)
    from reactiveSet_props(1) [OF Cons.prems(1,3), of k v] obtain lv1 where
      lv1: "heap ?m1 = (heap m)(reactiveState s \<mapsto> lv1)" "map_of lv1 = (map_of lv)(k \<mapsto> v)"
      by blast
    have st1: "stores ?m1 = stores m" by (rule reactiveSet_props(2) [OF Cons.prems(1,3)])
    have d1: "deliveriesTo cb (deliveries ?m1) =
        deliveriesTo cb (deliveries m) + (if map_of lv k = Some v then 0 else perTrigger cb s)"
      by (rule reactiveSet_props(3) [OF Cons.prems(1,3)])
    have p1: "stores ?m1 a = Some s" "heap ?m1 (reactiveState s) = Some lv1"
      "heap ?m1 (defaultState s) = Some dflt"
      using st1 lv1(1) Cons.prems by simp_all
    from Cons.IH [OF p1(1) Cons.prems(2) p1(2,3)] obtain lv' where
      ih: "heap (fold ?f ks ?m1) (reactiveState s) = Some lv'"
        "map_of lv' =
           (\<lambda>k. if k \<in> set ks \<and> map_of dflt k \<noteq> None then map_of dflt k else map_of lv1 k)"
        "heap (fold ?f ks ?m1) (defaultState s) = Some dflt"
        "stores (fold ?f ks ?m1) = stores ?m1"
        "deliveriesTo cb (deliveries (fold ?f ks ?m1)) =
           deliveriesTo cb (deliveries ?m1) + perTrigger cb s * card (?S lv1 ks)"
      by blast
    have s1: "?S lv1 ks = ?S lv ks - {k}" using lv1(2) Some by auto
    have cardS: "card (?S lv (k # ks)) = (if map_of lv k = Some v then 0 else 1) + card (?S lv ks - {k})"
    proof (cases "map_of lv k = Some v")
      case True
      with Some have "?S lv (k # ks) = ?S lv ks - {k}" by auto
      with True show ?thesis by simp
    next
      case False
      with Some have "?S lv (k # ks) = insert k (?S lv ks)" by auto
      moreover have "finite (?S lv ks)" by simp
      ultimately have "card (?S lv (k # ks)) = Suc (card (?S lv ks - {k}))"
        by (simp only: card.insert_remove)
      with False show ?thesis by simp
    qed
    have m': "map_of lv' =
        (\<lambda>k'. if k' \<in> set (k # ks) \<and> map_of dflt k' \<noteq> None then map_of dflt k' else map_of lv k')"
      using ih(2) lv1(2) Some by (auto simp: fun_eq_iff)
    have "deliveriesTo cb (deliveries (fold ?f (k # ks) m)) =
        deliveriesTo cb (deliveries m) + perTrigger cb s * card (?S lv (k # ks))"
      using ih(5) d1 s1 cardS step by (simp add: algebra_simps)
    with ih(1,3,4) st1 step m' show ?thesis by simp
  qed
qed

lemma fieldsToRestore_card:
  "length (fieldsToRestore live dflt) = card {k. map_of live k \<noteq> map_of dflt k}"
proof -
  have "set (fieldsToRestore live dflt) = {k. map_of live k \<noteq> map_of dflt k}"
  proof (rule set_eqI)
    fix k
    have "k \<in> fst ` set live \<or> k \<in> fst ` set dflt" if "map_of live k \<noteq> map_of dflt k"
      using that by (metis map_of_eq_None_iff)
    then show "k \<in> set (fieldsToRestore live dflt) \<longleftrightarrow> k \<in> {k. map_of live k \<noteq> map_of dflt k}"
      by (auto simp: fieldsToRestore_def)
  qed
  moreover have "distinct (fieldsToRestore live dflt)" by (simp add: fieldsToRestore_def)
  ultimately show ?thesis by (metis distinct_card)
qed

lemma reset_props:
  assumes "stores m a = Some s" and "reactiveState s \<noteq> defaultState s"
    and "heap m (reactiveState s) = Some live" and "heap m (defaultState s) = Some dflt"
  shows "\<exists>lv'. heap (reset a m) (reactiveState s) = Some lv' \<and> map_of lv' = map_of dflt"
    and "heap (reset a m) (defaultState s) = Some dflt"
    and "stores (reset a m) = stores m"
    and "deliveriesTo cb (deliveries (reset a m)) =
           deliveriesTo cb (deliveries m) + perTrigger cb s * length (fieldsToRestore live dflt)"
proof -
  let ?m1 = "fold (resetStep a s) (map fst live) m"
  let ?m2 = "fold (assignStep a (reactiveState s) (defaultState s)) (map fst dflt) ?m1"
  from fold_resetStep [OF assms, of "map fst live" cb] obtain lv1 where
    one: "heap ?m1 (reactiveState s) = Some lv1"
      "map_of lv1 = (\<lambda>k. if k \<in> set (map fst live) \<and> map_of dflt k = None then None else map_of live k)"
      "heap ?m1 (defaultState s) = Some dflt"
      "stores ?m1 = stores m"
      "deliveriesTo cb (deliveries ?m1) =
         deliveriesTo cb (deliveries m) +
         perTrigger cb s * card {k \<in> set (map fst live). map_of live k \<noteq> None \<and> map_of dflt k = None}"
    by blast
  have st1: "stores ?m1 a = Some s" using one(4) assms(1) by simp
  from fold_assignStep [OF st1 assms(2) one(1,3), of "map fst dflt" cb] obtain lv2 where
    two: "heap ?m2 (reactiveState s) = Some lv2"
      "map_of lv2 =
         (\<lambda>k. if k \<in> set (map fst dflt) \<and> map_of dflt k \<noteq> None then map_of dflt k else map_of lv1 k)"
      "heap ?m2 (defaultState s) = Some dflt"
      "stores ?m2 = stores ?m1"
      "deliveriesTo cb (deliveries ?m2) =
         deliveriesTo cb (deliveries ?m1) +
         perTrigger cb s * card {k \<in> set (map fst dflt). map_of dflt k \<noteq> None \<and> map_of lv1 k \<noteq> map_of dflt k}"
    by blast
  have r: "reset a m = ?m2"
    using assms one(3) by (simp add: reset_def objectAssign_def objectKeys_def)
  have keys: "k \<in> set (map fst l) \<longleftrightarrow> map_of l k \<noteq> None" for k and l :: obj
    by (simp add: map_of_eq_None_iff)
  let ?A = "{k. map_of live k \<noteq> None \<and> map_of dflt k = None}"
  let ?B = "{k. map_of dflt k \<noteq> None \<and> map_of live k \<noteq> map_of dflt k}"
  have A: "{k \<in> set (map fst live). map_of live k \<noteq> None \<and> map_of dflt k = None} = ?A"
    using keys [of _ live] by auto
  have B: "{k \<in> set (map fst dflt). map_of dflt k \<noteq> None \<and> map_of lv1 k \<noteq> map_of dflt k} = ?B"
    using keys [of _ dflt] one(2) by auto
  have finA: "finite ?A"
    by (rule finite_subset [of _ "set (map fst live)"]) (use keys [of _ live] in auto)
  have finB: "finite ?B"
    by (rule finite_subset [of _ "set (map fst dflt)"]) (use keys [of _ dflt] in auto)
  have disj: "?A \<inter> ?B = {}" by auto
  have un: "?A \<union> ?B = {k. map_of live k \<noteq> map_of dflt k}" by auto
  have "card (?A \<union> ?B) = card ?A + card ?B" by (rule card_Un_disjoint [OF finA finB disj])
  with un have "card ?A + card ?B = card {k. map_of live k \<noteq> map_of dflt k}" by simp
  then have total: "card ?A + card ?B = length (fieldsToRestore live dflt)"
    by (simp add: fieldsToRestore_card)
  have final: "map_of lv2 = map_of dflt"
  proof (rule ext)
    fix k
    show "map_of lv2 k = map_of dflt k"
      using two(2) one(2) keys [of k dflt] keys [of k live]
      by (cases "map_of dflt k") simp_all
  qed
  show "\<exists>lv'. heap (reset a m) (reactiveState s) = Some lv' \<and> map_of lv' = map_of dflt"
    using r two(1) final by auto
  show "heap (reset a m) (defaultState s) = Some dflt" using r two(3) by simp
  show "stores (reset a m) = stores m" using r two(4) one(4) by simp
  have "deliveriesTo cb (deliveries ?m2) =
      deliveriesTo cb (deliveries m) + perTrigger cb s * (card ?A + card ?B)"
    using two(5) one(5) by (simp only: A B distrib_left add.assoc)
  with r total show "deliveriesTo cb (deliveries (reset a m)) =
           deliveriesTo cb (deliveries m) + perTrigger cb s * length (fieldsToRestore live dflt)"
    by simp
qed

lemma perTrigger_inv:
  "watcher_inv s \<Longrightarrow> perTrigger cb s = count_list (subscriptions s) cb"
  by (cases "stopWatcher s") (auto simp: watcher_inv_def perTrigger_def)

section \<open>What every operation on a store preserves\<close>

lemma sameObjects_refl [simp]: "sameObjects m m"
  by (simp add: sameObjects_def)

lemma sameObjects_trans: "sameObjects m m1 \<Longrightarrow> sameObjects m1 m2 \<Longrightarrow> sameObjects m m2"
  by (simp add: sameObjects_def)

lemma trigger_sameObjects: "sameObjects m (trigger a m)"
  by (simp add: sameObjects_def trigger_def split: option.splits)

lemma reactiveSet_sameObjects: "sameObjects m (reactiveSet a ob k v m)"
proof (cases "heap m ob")
  case None
  then show ?thesis by (simp add: reactiveSet_def)
next
  case (Some props)
  let ?m1 = "m\<lparr>heap := (heap m)(ob \<mapsto> AList.update k v props)\<rparr>"
  have "sameObjects m ?m1" using Some by (auto simp: sameObjects_def)
  moreover have "sameObjects ?m1 (trigger a ?m1)" by (rule trigger_sameObjects)
  ultimately have "sameObjects m (trigger a ?m1)" by (rule sameObjects_trans)
  with \<open>sameObjects m ?m1\<close> Some show ?thesis by (simp add: reactiveSet_def Let_def)
qed

lemma reactiveDelete_sameObjects: "sameObjects m (reactiveDelete a ob k m)"
proof (cases "heap m ob")
  case None
  then show ?thesis by (simp add: reactiveDelete_def)
next
  case (Some props)
  let ?m1 = "m\<lparr>heap := (heap m)(ob \<mapsto> AList.delete k props)\<rparr>"
  have "sameObjects m ?m1" using Some by (auto simp: sameObjects_def)
  moreover have "sameObjects ?m1 (trigger a ?m1)" by (rule trigger_sameObjects)
  ultimately have "sameObjects m (trigger a ?m1)" by (rule sameObjects_trans)
  with Some show ?thesis by (simp add: reactiveDelete_def)
qed

lemma fold_sameObjects:
  assumes "\<And>x m. sameObjects m (f x m)"
  shows "sameObjects m (fold f xs m)"
proof (induction xs arbitrary: m)
  case Nil
  then show ?case by simp
next
  case (Cons x xs)
  have "sameObjects m (f x m)" by (rule assms)
  moreover have "sameObjects (f x m) (fold f xs (f x m))" by (rule Cons.IH)
  ultimately show ?case by (simp add: sameObjects_trans)
qed

lemma reset_sameObjects: "sameObjects m (reset a m)"
proof (cases "stores m a")
  case None
  then show ?thesis by (simp add: reset_def)
next
  case (Some s)
  have one: "sameObjects m (fold (resetStep a s) ks m)" for ks
    by (rule fold_sameObjects) (simp add: resetStep_def reactiveDelete_sameObjects)
  have two: "sameObjects m' (fold (assignStep a t d) ks m')" for ks t d and m' :: "'a machine"
    by (rule fold_sameObjects)
      (simp add: assignStep_def reactiveSet_sameObjects split: option.splits)
  from Some show ?thesis
    unfolding reset_def objectAssign_def
    using sameObjects_trans [OF one two] by simp
qed

lemma stateSet_sameObjects: "sameObjects m (orElse (stateSet a path k v m) m)"
  by (simp add: stateSet_def orElse_def reactiveSet_sameObjects split: option.splits)

lemma wfStore_sameObjects: "sameObjects m m1 \<Longrightarrow> wfStore a m \<Longrightarrow> wfStore a m1"
  by (auto simp: sameObjects_def wfStore_def domIff split: option.splits)

lemma watcher_inv_at_sameObjects: "sameObjects m m1 \<Longrightarrow> watcher_inv_at a m \<Longrightarrow> watcher_inv_at a m1"
  by (simp add: sameObjects_def watcher_inv_at_def)

lemma onStore_wfStore:
  assumes "\<And>s. reactiveState (f s) = reactiveState s \<and> defaultState (f s) = defaultState s"
    and "wfStore a m"
  shows "wfStore a (onStore b f m)"
proof (cases "stores m b")
  case None
  with assms(2) show ?thesis by (simp add: onStore_def)
next
  case (Some s)
  with assms show ?thesis
    by (cases "a = b") (auto simp: onStore_def wfStore_def split: option.splits)
qed

lemma subscribe_addresses:
  "reactiveState (subscribe cb s) = reactiveState s \<and> defaultState (subscribe cb s) = defaultState s"
  by (simp add: subscribe_def Let_def split: option.splits)

lemma unsubscribe_addresses:
  "reactiveState (unsubscribe cb s) = reactiveState s \<and>
   defaultState (unsubscribe cb s) = defaultState s"
  by (simp add: unsubscribe_def Let_def split: option.splits)

lemma runOp_sameObjects_cases:
  "sameObjects m (runOp b op m) \<or>
   (\<exists>f. runOp b op m = onStore b f m \<and>
        (\<forall>s. reactiveState (f s) = reactiveState s \<and> defaultState (f s) = defaultState s \<and>
             (watcher_inv s \<longrightarrow> watcher_inv (f s))))"
proof (cases op)
  case (OpAssign k v)
  have "\<forall>s. watcher_inv s \<longrightarrow>
      watcher_inv (s\<lparr>storeInstance := AList.update k (Plain v) (storeInstance s)\<rparr>)"
    by (simp add: watcher_inv_def)
  with OpAssign show ?thesis by (auto simp: assignProperty_def)
next
  case (OpHandleValue k v)
  then show ?thesis
    by (simp add: setHandleValue_def stateSet_sameObjects orElse_def split: option.splits)
      (metis stateSet_sameObjects orElse_def option.simps(5))
next
  case (OpThroughHandle k path f v)
  then show ?thesis
    by (simp add: setThroughHandle_def orElse_def split: option.splits)
      (metis stateSet_sameObjects orElse_def option.simps(5))
next
  case (OpStateSet path k v)
  then show ?thesis by (simp add: stateSet_sameObjects)
next
  case OpReset
  then show ?thesis by (simp add: reset_sameObjects)
next
  case (OpSubscribe cb)
  then show ?thesis
    using subscribe_addresses watcher_inv_subscribe by (auto simp: subscribeAt_def)
next
  case (OpUnsubscribe cb)
  then show ?thesis
    using unsubscribe_addresses watcher_inv_unsubscribe by (auto simp: unsubscribeAt_def)
qed

lemma runOp_preserves:
  assumes "wfStore a m" and "watcher_inv_at a m"
  shows "wfStore a (runOp b op m) \<and> watcher_inv_at a (runOp b op m)"
proof -
  from runOp_sameObjects_cases [of m b op] show ?thesis
  proof
    assume "sameObjects m (runOp b op m)"
    with assms show ?thesis
      using wfStore_sameObjects watcher_inv_at_sameObjects by blast
  next
    assume "\<exists>f. runOp b op m = onStore b f m \<and>
        (\<forall>s. reactiveState (f s) = reactiveState s \<and> defaultState (f s) = defaultState s \<and>
             (watcher_inv s \<longrightarrow> watcher_inv (f s)))"
    then obtain f where f: "runOp b op m = onStore b f m"
      "\<And>s. reactiveState (f s) = reactiveState s \<and> defaultState (f s) = defaultState s"
      "\<And>s. watcher_inv s \<Longrightarrow> watcher_inv (f s)" by blast
    have "wfStore a (onStore b f m)" by (rule onStore_wfStore [OF f(2) assms(1)])
    moreover have "watcher_inv_at a (onStore b f m)" by (rule onStore_inv_at [OF f(3) assms(2)])
    ultimately show ?thesis using f(1) by simp
  qed
qed

lemma runOps_preserves:
  "wfStore a m \<Longrightarrow> watcher_inv_at a m \<Longrightarrow>
   wfStore a (runOps ops m) \<and> watcher_inv_at a (runOps ops m)"
  unfolding runOps_def
proof (induction ops arbitrary: m)
  case Nil
  then show ?case by simp
next
  case (Cons p ops)
  from runOp_preserves [OF Cons.prems, of "fst p" "snd p"]
    Cons.IH [of "runOp (fst p) (snd p) m"]
  show ?case by simp
qed

lemma runCmd_wfStore:
  assumes "runCmd c cmd m = (r, m1)" and "wfStore a m"
  shows "wfStore a m1"
proof (cases "c < length (contexts m)")
  case False
  with assms show ?thesis by (simp add: runCmd_def)
next
  case True
  show ?thesis
  proof (cases cmd)
    case (PAssign k v)
    with True assms(1) have "m1 = assignProperty (ctx_store (contexts m ! c)) k v m"
      by (simp add: runCmd_def Let_def)
    moreover have "wfStore a (assignProperty (ctx_store (contexts m ! c)) k v m)"
      unfolding assignProperty_def by (rule onStore_wfStore) (simp_all add: assms(2))
    ultimately show ?thesis by simp
  next
    case (PSubscribe cb)
    with True assms(1) have "m1 = m \<or> m1 = subscribeAt (ctx_store (contexts m ! c)) cb m"
      by (auto simp: runCmd_def Let_def split: option.splits slot.splits builtin.splits)
    moreover have "wfStore a (subscribeAt (ctx_store (contexts m ! c)) cb m)"
      unfolding subscribeAt_def by (rule onStore_wfStore) (simp_all add: subscribe_addresses assms(2))
    ultimately show ?thesis using assms(2) by auto
  next
    case (PSetId s)
    with True assms show ?thesis by (auto simp: runCmd_def Let_def wfStore_def split: option.splits)
  next
    case (PUser f)
    with True assms show ?thesis by (auto simp: runCmd_def Let_def wfStore_def split: option.splits)
  next
    case (PThrow msg)
    with True assms show ?thesis by (auto simp: runCmd_def Let_def)
  qed
qed

lemma runCmds_wfStore:
  "runCmds c cmds m = (r, m1) \<Longrightarrow> wfStore a m \<Longrightarrow> wfStore a m1"
proof (induction cmds arbitrary: m)
  case Nil
  then show ?case by simp
next
  case (Cons cmd cmds)
  obtain r0 m0 where step: "runCmd c cmd m = (r0, m0)" by (cases "runCmd c cmd m")
  have wf0: "wfStore a m0" by (rule runCmd_wfStore [OF step Cons.prems(2)])
  show ?case
  proof (cases r0)
    case None
    with step Cons.prems(1) have "runCmds c cmds m0 = (r, m1)" by simp
    then show ?thesis using wf0 by (rule Cons.IH)
  next
    case (Some e)
    with step Cons.prems(1) have "m1 = m0" by simp
    with wf0 show ?thesis by simp
  qed
qed

lemma runPlugins_wfStore:
  "runPlugins ps b sid options ap m = (r, m1) \<Longrightarrow> wfStore a m \<Longrightarrow> wfStore a m1"
proof (induction ps arbitrary: m)
  case Nil
  then show ?case by simp
next
  case (Cons p ps)
  define m0 where "m0 = m\<lparr>contexts := contexts m @
                    [\<lparr>ctx_store = b, ctx_id = sid, ctx_options = options, ctx_app = ap\<rparr>],
                  pluginCalls := pluginCalls m @
                    [\<lparr>pc_plugin = pluginName p, pc_context = length (contexts m), pc_store = b,
                      pc_id = sid, pc_app = ap,
                      pc_instance = (case stores m b of None \<Rightarrow> [] | Some s \<Rightarrow> storeInstance s)\<rparr>]\<rparr>"
  have wf0: "wfStore a m0" using Cons.prems(2) by (simp add: m0_def wfStore_def split: option.splits)
  obtain r2 m2 where body: "runCmds (length (contexts m)) (pluginBody p) m0 = (r2, m2)"
    by (cases "runCmds (length (contexts m)) (pluginBody p) m0")
  have wf2: "wfStore a m2" by (rule runCmds_wfStore [OF body wf0])
  show ?case
  proof (cases r2)
    case None
    with body Cons.prems(1) have "runPlugins ps b sid options ap m2 = (r, m1)"
      by (simp add: Let_def m0_def)
    then show ?thesis using wf2 by (rule Cons.IH)
  next
    case (Some e)
    with body Cons.prems(1) have "m1 = m2" by (simp add: Let_def m0_def)
    with wf2 show ?thesis by simp
  qed
qed

lemma alloc_fields_fresh:
  "alloc_fields fs acc hn = (ob, h, n) \<Longrightarrow> snd hn \<le> n"
  using alloc_preserves(2) [of fs acc hn ob "(h, n)"] by simp

lemma wireStore_wfStore:
  assumes "wireStore sid options lit m = (a, m1)"
  shows "wfStore a m1"
proof -
  obtain i mi where i: "allocObject lit m = (i, mi)" by (cases "allocObject lit m")
  obtain d md where d: "allocObject lit mi = (d, md)" by (cases "allocObject lit mi")
  from allocObject_keys [OF i] obtain pi where pi: "heap mi i = Some pi" by blast
  from allocObject_keys [OF d] obtain pd where pd: "heap md d = Some pd" by blast
  from allocObject_heap(1) [OF i] allocObject_heap(2) [OF d] have ne: "i \<noteq> d" by simp
  from allocObject_heap(1) [OF i] allocObject_heap(3) [OF d] pi have hi: "heap md i = Some pi"
    by simp
  from assms i d have
    "\<exists>s. stores m1 a = Some s \<and> reactiveState s = i \<and> defaultState s = d" "heap m1 = heap md"
    by (auto simp: wireStore_def Let_def)
  with ne hi pd show ?thesis by (auto simp: wfStore_def)
qed

lemma setupStore_wfStore:
  assumes "setupStore sid options sv m = (Inr a, m1)"
  shows "wfStore a m1"
proof -
  obtain r w where f: "state options (world m) = (r, w)" by (cases "state options (world m)")
  define m0 where "m0 = m\<lparr>world := w, factoryCalls := factoryCalls m @ [sid]\<rparr>"
  from assms f obtain lit where lit: "r = Inr lit"
    by (cases r) (auto simp: setupStore_def Let_def)
  obtain b mw where w: "wireStore sid options lit m0 = (b, mw)" by (cases "wireStore sid options lit m0")
  obtain rp mp where p: "runPlugins (plugins sv) b sid options (app sv) mw = (rp, mp)"
    by (cases "runPlugins (plugins sv) b sid options (app sv) mw")
  from assms f lit w p have "b = a" "mp = m1"
    by (auto simp: setupStore_def Let_def m0_def split: option.splits)
  with p w show ?thesis using runPlugins_wfStore wireStore_wfStore by blast
qed

lemma wfStore_D:
  assumes "wfStore a m"
  obtains s live dflt where "stores m a = Some s" and "reactiveState s \<noteq> defaultState s"
    and "heap m (reactiveState s) = Some live" and "heap m (defaultState s) = Some dflt"
  using assms by (auto simp: wfStore_def split: option.splits)

text \<open>For every store that \<^verbatim>\<open>setupStore\<close> returns, and after every sequence of operations,
  \<^verbatim>\<open>$reset\<close> leaves the reactive state object with exactly the fields of the default
  snapshot, each with its snapshot value, and the snapshot object is as before.\<close>

lemma reset_restores_snapshot_after_ops:
  assumes "setupStore sid options sv m = (Inr a, m1)"
  shows "\<exists>s dflt restored.
           stores (runOps ops m1) a = Some s \<and>
           heap (runOps ops m1) (defaultState s) = Some dflt \<and>
           heap (reset a (runOps ops m1)) (reactiveState s) = Some restored \<and>
           map_of restored = map_of dflt \<and>
           heap (reset a (runOps ops m1)) (defaultState s) = Some dflt"
proof -
  from runOps_preserves [OF setupStore_wfStore [OF assms] setupStore_inv_at [OF assms]]
  have "wfStore a (runOps ops m1)" by blast
  then obtain s live dflt where
    wf: "stores (runOps ops m1) a = Some s" "reactiveState s \<noteq> defaultState s"
      "heap (runOps ops m1) (reactiveState s) = Some live"
      "heap (runOps ops m1) (defaultState s) = Some dflt"
    by (rule wfStore_D)
  from reset_props(1,2) [OF wf] wf(1,4) show ?thesis by blast
qed

section \<open>Claims\<close>

text \<open>
  C1.  Once a call of the hook has returned a store instance on a registry, every later
  call of the hook on that registry, in whatever state the program is by then and however
  many times, returns the same instance (the same address) and changes nothing: the
  registry and the whole machine state are as before the call, so no state factory call,
  no plugin call, no new object and no new handle.  Over the first call the state factory
  was called exactly once if the identifier was not registered, and not at all otherwise.
\<close>

theorem C1_singleton_per_registry:
  assumes "useStore sid options (Some sv) m = (Inr a, injected1, m1)"
  shows "useStore sid options injected1 m' = (Inr a, injected1, m') \<and>
         useStoreTimes n sid options injected1 m' = (replicate n (Inr a), injected1, m') \<and>
         factoryCalls m1 = factoryCalls m @ (if activeStores sv sid = None then [sid] else [])"
proof -
  from useStore_success(1) [OF assms] obtain sv1 where
    sv1: "injected1 = Some sv1" "activeStores sv1 sid = Some a" by blast
  from sv1 useStore_cached [OF sv1(2)] useStoreTimes_cached [OF sv1(2)]
    useStore_success(2) [OF assms]
  show ?thesis by simp
qed

theorem C1_witness:
  "fst pluginRun = Inr 0 \<and>
   useStoreTimes 3 ''ab'' abOptions (fst (snd pluginRun)) (snd (snd pluginRun)) =
     (replicate 3 (Inr 0), fst (snd pluginRun), snd (snd pluginRun)) \<and>
   factoryCalls (snd (snd pluginRun)) = [''ab''] \<and>
   map pc_plugin (pluginCalls (snd (snd pluginRun))) = [''p1'', ''p2'']"
proof -
  have r: "fst pluginRun = Inr 0" by code_simp
  then have h: "useStore ''ab'' abOptions (Some pluginStavue) (init_machine ()) =
      (Inr 0, fst (snd pluginRun), snd (snd pluginRun))"
    by (simp add: prod_eq_iff pluginRun_def)
  have n: "activeStores pluginStavue ''ab'' = None"
    by (simp add: pluginStavue_def install_def createStavue_def)
  have p: "map pc_plugin (pluginCalls (snd (snd pluginRun))) = [''p1'', ''p2'']" by code_simp
  note c1 = C1_singleton_per_registry [OF h, of "snd (snd pluginRun)" 3]
  from c1 have t: "useStoreTimes 3 ''ab'' abOptions (fst (snd pluginRun)) (snd (snd pluginRun)) =
     (replicate 3 (Inr 0), fst (snd pluginRun), snd (snd pluginRun))"
    by (rule conjunct2 [THEN conjunct1])
  from c1 n have f: "factoryCalls (snd (snd pluginRun)) = [''ab'']"
    by (simp add: init_machine_def)
  from r t f p show ?thesis by (intro conjI)
qed

text \<open>
  C2, the code at the failing input.  For \<^verbatim>\<open>state: () => ({a: 1, b: 2})\<close> the instance holds
  the handles of \<^verbatim>\<open>a\<close> and \<^verbatim>\<open>b\<close>.  \<^verbatim>\<open>instance.a = 99; instance.newField = 'x'\<close> replaces the
  handle of \<^verbatim>\<open>a\<close> by \<^verbatim>\<open>99\<close> and adds \<^verbatim>\<open>newField\<close> to the instance; the reactive state is not
  written.  \<^verbatim>\<open>instance.$reset()\<close> then finds the state equal to the snapshot, writes nothing
  and notifies nobody, and the instance still holds \<^verbatim>\<open>a = 99\<close> and \<^verbatim>\<open>newField = 'x'\<close>.  The
  same two writes made to the reactive state (\<^verbatim>\<open>instance.a.value = 99\<close> and
  \<^verbatim>\<open>state.newField = 'x'\<close>) are undone by \<^verbatim>\<open>$reset()\<close>.
\<close>

theorem C2_instance_writes_survive_reset:
  "fst (setupStore ''ab'' abOptions plainStavue (init_machine ())) = Inr 0 \<and>
   map_option (\<lambda>s. map (map_of (storeInstance s)) [''a'', ''b'', ''newField'']) (stores abStart 0) =
     Some [Some (StateRef ''a''), Some (StateRef ''b''), None] \<and>
   heap abStart 0 = Some [(''a'', VNum 1), (''b'', VNum 2)] \<and>
   map_option (\<lambda>s. map (map_of (storeInstance s)) [''a'', ''b'', ''newField''])
     (stores assignedMachine 0) =
     Some [Some (Plain (VNum 99)), Some (StateRef ''b''), Some (Plain (VStr ''x''))] \<and>
   heap assignedMachine 0 = Some [(''a'', VNum 1), (''b'', VNum 2)] \<and>
   map_option (\<lambda>s. map (map_of (storeInstance s)) [''a'', ''b'', ''newField''])
     (stores (reset 0 assignedMachine) 0) =
     Some [Some (Plain (VNum 99)), Some (StateRef ''b''), Some (Plain (VStr ''x''))] \<and>
   heap (reset 0 assignedMachine) 0 = Some [(''a'', VNum 1), (''b'', VNum 2)] \<and>
   deliveries (reset 0 assignedMachine) = [] \<and>
   heap writtenMachine 0 = Some [(''a'', VNum 99), (''b'', VNum 2), (''newField'', VStr ''x'')] \<and>
   map_option (\<lambda>s. map (map_of (storeInstance s)) [''a'', ''b'', ''newField''])
     (stores (reset 0 writtenMachine) 0) =
     Some [Some (StateRef ''a''), Some (StateRef ''b''), None] \<and>
   heap (reset 0 writtenMachine) 0 = Some [(''a'', VNum 1), (''b'', VNum 2)]"
  by code_simp

text \<open>
  C3, the code at the failing input.  For \<^verbatim>\<open>state: () => ({n: {x: 1}})\<close> the snapshot is a
  copy of its own (the state at address 1, the snapshot at 3).  After \<^verbatim>\<open>$reset()\<close> the
  live \<^verbatim>\<open>n\<close> is the snapshot's object, so \<^verbatim>\<open>instance.n.value.x = 5\<close> writes into the
  snapshot, and a second \<^verbatim>\<open>$reset()\<close> leaves \<^verbatim>\<open>x: 5\<close>.  Without the first \<^verbatim>\<open>$reset()\<close> the
  same write leaves the snapshot as it was.
\<close>

theorem C3_snapshot_shared_after_reset:
  "map_option (\<lambda>s. (reactiveState s, defaultState s)) (stores nestedMachine 0) = Some (1, 3) \<and>
   reify 2 (heap nestedMachine) (VObj 3) = Some (JObj nestedState) \<and>
   map_option (\<lambda>m. reify 2 (heap m) (VObj 3))
     (setThroughHandle 0 ''n'' [] ''x'' (VNum 5) (reset 0 nestedMachine)) =
     Some (Some (JObj (JCons ''n'' (JObj (JCons ''x'' (JNum 5) JNil)) JNil))) \<and>
   map_option (\<lambda>m. reify 2 (heap (reset 0 m)) (VObj 1))
     (setThroughHandle 0 ''n'' [] ''x'' (VNum 5) (reset 0 nestedMachine)) =
     Some (Some (JObj (JCons ''n'' (JObj (JCons ''x'' (JNum 5) JNil)) JNil))) \<and>
   map_option (\<lambda>m. reify 2 (heap m) (VObj 3))
     (setThroughHandle 0 ''n'' [] ''x'' (VNum 5) nestedMachine) =
     Some (Some (JObj nestedState))"
  by code_simp

text \<open>
  C4, the code at the failing input.  After \<^verbatim>\<open>$subscribe(cb7)\<close>, the assignment
  \<^verbatim>\<open>instance.a = 5\<close> replaces the handle that the instance held under \<^verbatim>\<open>a\<close>: no callback
  is called and the state still has \<^verbatim>\<open>a: 1\<close>.  The same write through the handle,
  \<^verbatim>\<open>instance.a.value = 5\<close>, calls the callback once with \<^verbatim>\<open>a: 5\<close>; with two subscribers it
  calls both in the order of their registration, and it does not call one that has
  unsubscribed.
\<close>

theorem C4_instance_assignment_not_delivered:
  "deliveries (assignProperty 0 ''a'' (VNum 5) (subscribeAt 0 7 abMachine)) = [] \<and>
   heap (assignProperty 0 ''a'' (VNum 5) (subscribeAt 0 7 abMachine)) 0 =
     Some [(''a'', VNum 1), (''b'', VNum 2)] \<and>
   map_option (\<lambda>s. map_of (storeInstance s) ''a'')
     (stores (assignProperty 0 ''a'' (VNum 5) (subscribeAt 0 7 abMachine)) 0) =
     Some (Some (Plain (VNum 5))) \<and>
   map_option deliveries (setHandleValue 0 ''a'' (VNum 5) (subscribeAt 0 7 abMachine)) =
     Some [\<lparr>d_callback = 7, d_storeId = ''ab'', d_type = ''direct'',
             d_state = [(''a'', VNum 5), (''b'', VNum 2)]\<rparr>] \<and>
   map_option (\<lambda>m. map d_callback (deliveries m))
     (setHandleValue 0 ''a'' (VNum 5) (subscribeAt 0 8 (subscribeAt 0 7 abMachine))) = Some [7, 8] \<and>
   map_option (\<lambda>m. map d_callback (deliveries m))
     (setHandleValue 0 ''a'' (VNum 5)
        (unsubscribeAt 0 7 (subscribeAt 0 8 (subscribeAt 0 7 abMachine)))) = Some [8]"
  by code_simp

text \<open>
  C5 (as the code has it).  When the assembly of an unregistered identifier throws (the
  factory or a plugin), the hook throws the same exception and the registry it leaves is
  the one it found, with no entry for the identifier.  The next call of the hook runs the assembly again: the
  factory is called a second time.  If the factory now returns a state and no plugin
  throws, that call returns a newly made store instance and registers it.
\<close>

theorem C5_failed_assembly_not_registered:
  assumes "activeStores sv sid = None" and "setupStore sid options sv m = (Inl e, m1)"
  shows "useStore sid options (Some sv) m = (Inl e, Some sv, m1) \<and>
         factoryCalls (snd (snd (useStore sid options (Some sv) m1))) = factoryCalls m @ [sid, sid] \<and>
         (\<forall>lit w. state options (world m1) = (Inr lit, w) \<and> quietPlugins (plugins sv) \<longrightarrow>
            (\<exists>m2. useStore sid options (Some sv) m1 =
                    (Inr (nextStore m1),
                     Some (sv\<lparr>activeStores := (activeStores sv)(sid \<mapsto> nextStore m1)\<rparr>), m2)))"
proof -
  have first: "useStore sid options (Some sv) m = (Inl e, Some sv, m1)"
    using assms by (simp add: useStore_def)
  obtain r2 m2 where again: "setupStore sid options sv m1 = (r2, m2)"
    by (cases "setupStore sid options sv m1")
  have "snd (snd (useStore sid options (Some sv) m1)) = m2"
    using assms(1) again by (cases r2) (simp_all add: useStore_def)
  with setupStore_factoryCalls [OF again] setupStore_factoryCalls [OF assms(2)]
  have calls: "factoryCalls (snd (snd (useStore sid options (Some sv) m1))) =
      factoryCalls m @ [sid, sid]" by simp
  have "\<exists>m2. useStore sid options (Some sv) m1 =
            (Inr (nextStore m1),
             Some (sv\<lparr>activeStores := (activeStores sv)(sid \<mapsto> nextStore m1)\<rparr>), m2)"
    if "state options (world m1) = (Inr lit, w)" and "quietPlugins (plugins sv)" for lit w
  proof -
    from setupStore_quiet [OF that] obtain m3 where
      "setupStore sid options sv m1 = (Inr (nextStore m1), m3)" by blast
    with assms(1) show ?thesis by (simp add: useStore_def)
  qed
  with first calls show ?thesis by blast
qed

theorem C5_witness:
  "activeStores (plainStavue :: bool stavue) ''ab'' = None \<and>
   fst (setupStore ''ab'' flakyOptions plainStavue (init_machine False)) = Inl (Thrown ''boom'') \<and>
   useStore ''ab'' flakyOptions (Some plainStavue) (init_machine False) =
     (Inl (Thrown ''boom''), Some plainStavue,
      snd (setupStore ''ab'' flakyOptions plainStavue (init_machine False))) \<and>
   factoryCalls (snd (snd (useStore ''ab'' flakyOptions (Some plainStavue)
      (snd (setupStore ''ab'' flakyOptions plainStavue (init_machine False)))))) = [''ab'', ''ab''] \<and>
   fst (useStore ''ab'' flakyOptions (Some plainStavue)
      (snd (setupStore ''ab'' flakyOptions plainStavue (init_machine False)))) = Inr 0"
proof -
  let ?m1 = "snd (setupStore ''ab'' flakyOptions plainStavue (init_machine False))"
  have n: "activeStores (plainStavue :: bool stavue) ''ab'' = None"
    by (simp add: plainStavue_def install_def createStavue_def)
  have r: "fst (setupStore ''ab'' flakyOptions plainStavue (init_machine False)) = Inl (Thrown ''boom'')"
    by code_simp
  then have h: "setupStore ''ab'' flakyOptions plainStavue (init_machine False) =
      (Inl (Thrown ''boom''), ?m1)"
    by (simp add: prod_eq_iff)
  have w: "state flakyOptions (world ?m1) = (Inr abState, True)"
    by (simp add: setupStore_def flakyOptions_def init_machine_def Let_def)
  have q: "quietPlugins (plugins (plainStavue :: bool stavue))"
    by (simp add: quietPlugins_def plainStavue_def install_def createStavue_def)
  have ns: "nextStore ?m1 = 0"
    by (simp add: setupStore_def flakyOptions_def init_machine_def Let_def)
  note c5 = C5_failed_assembly_not_registered [OF n h]
  from c5 [THEN conjunct2, THEN conjunct2, rule_format, of abState True, OF conjI [OF w q]]
  have ok: "fst (useStore ''ab'' flakyOptions (Some plainStavue) ?m1) = Inr 0"
    using ns by auto
  from C5_failed_assembly_not_registered [OF n h] n r ok show ?thesis
    by (simp add: init_machine_def)
qed

text \<open>
  C5 as stated fails on its last clause: the factory throws on the first call and would
  return the state on the second, the registry has no entry, and the second call still
  throws, because the plugin of the registry throws.
\<close>

theorem C5_counterexample:
  "fst throwingRun = Inl (Thrown ''boom'') \<and>
   map_option (\<lambda>sv. activeStores sv ''ab'') (fst (snd throwingRun)) = Some None \<and>
   fst (state flakyOptions (world (snd (snd throwingRun)))) = Inr abState \<and>
   fst (useStore ''ab'' flakyOptions (fst (snd throwingRun)) (snd (snd throwingRun))) =
     Inl (Thrown ''plugin failed'')"
  by code_simp

text \<open>
  C6.  For every store that \<^verbatim>\<open>setupStore\<close> returns, whatever the plugins subscribed during
  assembly, and after every sequence of \<^verbatim>\<open>$subscribe\<close> calls, calls of the returned
  unsubscribe closures, writes and resets, on this store or another: the variable \<^verbatim>\<open>_stopWatcher\<close> is undefined exactly when
  \<^verbatim>\<open>_subscriptions\<close> is empty, and the watchers that observe the state are exactly the one
  it holds (none when it is undefined).  So the watcher is installed by the subscription
  that makes the list non-empty, stopped by the unsubscription that empties it, and a store
  without subscribers has none.
\<close>

theorem C6_watcher_iff_subscribers:
  assumes "setupStore sid options sv m = (Inr a, m1)"
  shows "\<exists>s. stores (runOps ops m1) a = Some s \<and>
             (stopWatcher s = None) = (subscriptions s = []) \<and>
             activeWatchers s = (case stopWatcher s of None \<Rightarrow> [] | Some h \<Rightarrow> [h])"
proof -
  from runOps_preserves [OF setupStore_wfStore [OF assms] setupStore_inv_at [OF assms]]
  have "watcher_inv_at a (runOps ops m1)" by blast
  then show ?thesis by (auto simp: watcher_inv_at_def watcher_inv_def split: option.splits)
qed

theorem C6_witness:
  "fst (setupStore ''ab'' abOptions plainStavue (init_machine ())) = Inr 0 \<and>
   (\<exists>s. stores (runOps mixedOps abStart) 0 = Some s \<and>
         (stopWatcher s = None) = (subscriptions s = []) \<and>
         activeWatchers s = (case stopWatcher s of None \<Rightarrow> [] | Some h \<Rightarrow> [h])) \<and>
   map (\<lambda>n. map_option (\<lambda>s. (subscriptions s, stopWatcher s, activeWatchers s))
               (stores (runOps (take n mixedOps) abStart) 0)) [0, 1, 2, 4, 6] =
     [Some ([], None, []), Some ([1], Some 0, [0]), Some ([1, 2], Some 0, [0]),
      Some ([2], Some 0, [0]), Some ([], None, [])]"
proof -
  have f: "fst (setupStore ''ab'' abOptions plainStavue (init_machine ())) = Inr 0" by code_simp
  then have h: "setupStore ''ab'' abOptions plainStavue (init_machine ()) = (Inr 0, abStart)"
    by (simp add: prod_eq_iff abStart_def)
  have t: "map (\<lambda>n. map_option (\<lambda>s. (subscriptions s, stopWatcher s, activeWatchers s))
               (stores (runOps (take n mixedOps) abStart) 0)) [0, 1, 2, 4, 6] =
     [Some ([], None, []), Some ([1], Some 0, [0]), Some ([1, 2], Some 0, [0]),
      Some ([2], Some 0, [0]), Some ([], None, [])]" by code_simp
  from f C6_watcher_iff_subscribers [OF h, of mixedOps] t show ?thesis by (intro conjI)
qed

text \<open>
  C7 (as the code has it).  The unsubscribe closure removes the earliest registration of its
  callback that is still in \<^verbatim>\<open>_subscriptions\<close>, and changes nothing when the callback is not
  there.  When the callback is registered at most once at the first call, a second call
  right after it changes nothing: not the list, not the watcher, nor anything else.
\<close>

theorem C7_unsubscribe_once_registered:
  assumes "stores m a = Some s"
  shows "map_option subscriptions (stores (unsubscribeAt a cb m) a) =
           Some (remove1 cb (subscriptions s)) \<and>
         (cb \<notin> set (subscriptions s) \<longrightarrow> unsubscribeAt a cb m = m) \<and>
         (count_list (subscriptions s) cb \<le> 1 \<longrightarrow>
            unsubscribeAt a cb (unsubscribeAt a cb m) = unsubscribeAt a cb m)"
proof -
  have "unsubscribeAt a cb m = m" if "cb \<notin> set (subscriptions s)"
    using assms that by (simp add: unsubscribeAt_def onStore_def unsubscribe_absent map_upd_triv)
  moreover have "unsubscribeAt a cb (unsubscribeAt a cb m) = unsubscribeAt a cb m"
    if "count_list (subscriptions s) cb \<le> 1"
    using assms that by (simp add: unsubscribeAt_def onStore_def unsubscribe_twice)
  moreover have "map_option subscriptions (stores (unsubscribeAt a cb m) a) =
      Some (remove1 cb (subscriptions s))"
    using assms by (simp add: unsubscribeAt_def onStore_def unsubscribe_subscriptions)
  ultimately show ?thesis by blast
qed

theorem C7_witness:
  "stores (subscribeAt 0 1 abMachine) 0 \<noteq> None \<and>
   map_option (\<lambda>s. count_list (subscriptions s) 1 \<le> 1) (stores (subscribeAt 0 1 abMachine) 0) = Some True \<and>
   map_option subscriptions (stores (unsubscribeAt 0 1 (subscribeAt 0 1 abMachine)) 0) = Some [] \<and>
   unsubscribeAt 0 1 (unsubscribeAt 0 1 (subscribeAt 0 1 abMachine)) = unsubscribeAt 0 1 (subscribeAt 0 1 abMachine)"
proof -
  have "map_option subscriptions (stores (subscribeAt 0 1 abMachine) 0) = Some [1]" by code_simp
  then obtain s where s: "stores (subscribeAt 0 1 abMachine) 0 = Some s" "subscriptions s = [1]"
    by auto
  then have c: "count_list (subscriptions s) 1 \<le> 1" by simp
  show ?thesis using C7_unsubscribe_once_registered [OF s(1), of 1] c s by simp
qed

text \<open>
  C7 as stated fails when the same callback is subscribed twice: the first call of the
  closure leaves one registration and the watcher, the second call removes that
  registration and stops the watcher.
\<close>

theorem C7_counterexample:
  "map_option subscriptions (stores (unsubscribeAt 0 1 (subscribeAt 0 1 (subscribeAt 0 1 abMachine))) 0) = Some [1] \<and>
   map_option subscriptions (stores (unsubscribeAt 0 1 (unsubscribeAt 0 1 (subscribeAt 0 1 (subscribeAt 0 1 abMachine)))) 0) = Some [] \<and>
   map_option stopWatcher (stores (unsubscribeAt 0 1 (subscribeAt 0 1 (subscribeAt 0 1 abMachine))) 0) = Some (Some 0) \<and>
   map_option stopWatcher (stores (unsubscribeAt 0 1 (unsubscribeAt 0 1 (subscribeAt 0 1 (subscribeAt 0 1 abMachine)))) 0) = Some None"
  by code_simp

text \<open>
  C8 (as the code has it).  The watcher is synchronous: for every store that \<^verbatim>\<open>setupStore\<close>
  returns and after every sequence of operations, one \<^verbatim>\<open>$reset\<close> calls every subscriber
  once for each field it restores, that is for each field of the live state that the
  snapshot lacks or holds with another value; a subscriber registered \<open>n\<close> times is called
  \<open>n\<close> times for each.
\<close>

theorem C8_reset_notifies_per_restored_field:
  assumes "setupStore sid options sv m = (Inr a, m1)"
  shows "\<exists>s live dflt.
           stores (runOps ops m1) a = Some s \<and>
           heap (runOps ops m1) (reactiveState s) = Some live \<and>
           heap (runOps ops m1) (defaultState s) = Some dflt \<and>
           deliveriesTo cb (deliveries (reset a (runOps ops m1))) =
             deliveriesTo cb (deliveries (runOps ops m1)) +
             count_list (subscriptions s) cb * length (fieldsToRestore live dflt)"
proof -
  from runOps_preserves [OF setupStore_wfStore [OF assms] setupStore_inv_at [OF assms]]
  have both: "wfStore a (runOps ops m1)" "watcher_inv_at a (runOps ops m1)" by blast+
  from both(1) obtain s live dflt where
    wf: "stores (runOps ops m1) a = Some s" "reactiveState s \<noteq> defaultState s"
      "heap (runOps ops m1) (reactiveState s) = Some live"
      "heap (runOps ops m1) (defaultState s) = Some dflt"
    by (rule wfStore_D)
  from both(2) wf(1) have inv: "watcher_inv s" by (simp add: watcher_inv_at_def)
  from reset_props(4) [OF wf, of cb] perTrigger_inv [OF inv, of cb] wf(1,3,4)
  show ?thesis by auto
qed

theorem C8_witness:
  "fst (setupStore ''ab'' abOptions plainStavue (init_machine ())) = Inr 0 \<and>
   map_option (\<lambda>s. (reactiveState s, defaultState s, subscriptions s)) (stores changedMachine 0) =
     Some (0, 1, [7]) \<and>
   heap changedMachine 0 = Some [(''a'', VNum 5), (''b'', VNum 9)] \<and>
   heap changedMachine 1 = Some [(''a'', VNum 1), (''b'', VNum 2)] \<and>
   deliveriesTo 7 (deliveries changedMachine) = 0 \<and>
   deliveriesTo 7 (deliveries (reset 0 changedMachine)) = 2"
proof -
  have f: "fst (setupStore ''ab'' abOptions plainStavue (init_machine ())) = Inr 0" by code_simp
  then have h: "setupStore ''ab'' abOptions plainStavue (init_machine ()) = (Inr 0, abStart)"
    by (simp add: prod_eq_iff abStart_def)
  have s: "map_option (\<lambda>s. (reactiveState s, defaultState s, subscriptions s))
      (stores changedMachine 0) = Some (0, 1, [7])" by code_simp
  have l: "heap changedMachine 0 = Some [(''a'', VNum 5), (''b'', VNum 9)]" by code_simp
  have d: "heap changedMachine 1 = Some [(''a'', VNum 1), (''b'', VNum 2)]" by code_simp
  have z: "deliveriesTo 7 (deliveries changedMachine) = 0" by code_simp
  from C8_reset_notifies_per_restored_field [OF h,
      of "[(0, OpHandleValue ''a'' (VNum 5)), (0, OpHandleValue ''b'' (VNum 9)),
           (0, OpSubscribe 7)]" 7, folded changedMachine_def] s l d z
  have "deliveriesTo 7 (deliveries (reset 0 changedMachine)) = 2"
    by (auto simp: fieldsToRestore_def)
  with f s l d z show ?thesis by (intro conjI)
qed

text \<open>
  C8 as stated fails: after \<^verbatim>\<open>a\<close> and \<^verbatim>\<open>b\<close> were changed, one \<^verbatim>\<open>$reset\<close> calls the only
  subscriber twice, first with \<^verbatim>\<open>{a: 1, b: 9}\<close> and then with \<^verbatim>\<open>{a: 1, b: 2}\<close>.
\<close>

theorem C8_counterexample:
  "map_option subscriptions (stores changedMachine 0) = Some [7] \<and>
   deliveries changedMachine = [] \<and>
   deliveries (reset 0 changedMachine) =
     [\<lparr>d_callback = 7, d_storeId = ''ab'', d_type = ''direct'',
        d_state = [(''a'', VNum 1), (''b'', VNum 9)]\<rparr>,
      \<lparr>d_callback = 7, d_storeId = ''ab'', d_type = ''direct'',
        d_state = [(''a'', VNum 1), (''b'', VNum 2)]\<rparr>]"
  by code_simp

text \<open>
  C9 (as the code has it).  When \<^verbatim>\<open>setupStore\<close> returns, the plugins of the registry have
  been called exactly once each, in list order, and each was given a context object of its
  own, built for that call (the context addresses are consecutive fresh ones).  Every
  context names the same store instance, identifier and application, and the instance
  already has every action, state field, getter and built-in method.
\<close>

theorem C9_plugins_in_order_fresh_context:
  assumes "setupStore sid options sv m = (Inr a, m1)" and "state options (world m) = (Inr lit, w)"
  shows "\<exists>calls. pluginCalls m1 = pluginCalls m @ calls \<and>
           map pc_plugin calls = map pluginName (plugins sv) \<and>
           map pc_context calls = [length (contexts m)..<length (contexts m) + length (plugins sv)] \<and>
           list_all (callOk a sid (app sv) (wiredNames options lit)) calls"
proof -
  define m0 where "m0 = m\<lparr>world := w, factoryCalls := factoryCalls m @ [sid]\<rparr>"
  obtain b mw where wire: "wireStore sid options lit m0 = (b, mw)"
    by (cases "wireStore sid options lit m0")
  obtain rp mp where p: "runPlugins (plugins sv) b sid options (app sv) mw = (rp, mp)"
    by (cases "runPlugins (plugins sv) b sid options (app sv) mw")
  from assms wire p have eq: "b = a" "mp = m1" "rp = None"
    by (auto simp: setupStore_def Let_def m0_def split: option.splits)
  from wireStore_frame [OF wire] have fr: "pluginCalls mw = pluginCalls m" "contexts mw = contexts m"
    by (simp_all add: m0_def)
  from runPlugins_calls [OF p [unfolded eq] wireStore_instKeys [OF wire, unfolded eq]] fr
  show ?thesis by simp
qed

theorem C9_witness:
  "setupStore ''ab'' abOptions pluginStavue (init_machine ()) =
     (Inr 0, snd (setupStore ''ab'' abOptions pluginStavue (init_machine ()))) \<and>
   state abOptions (world (init_machine ())) = (Inr abState, ()) \<and>
   (\<exists>calls. pluginCalls (snd (setupStore ''ab'' abOptions pluginStavue (init_machine ()))) = calls \<and>
      map pc_plugin calls = [''p1'', ''p2''] \<and> map pc_context calls = [0, 1] \<and>
      list_all (callOk 0 ''ab'' (Some 0) {''a'', ''b'', ''$reset'', ''$subscribe''}) calls) \<and>
   map (\<lambda>c. map_of (pc_instance c) ''flag'')
     (pluginCalls (snd (setupStore ''ab'' abOptions pluginStavue (init_machine ())))) =
     [None, Some (Plain (VNum 1))]"
proof -
  have r: "fst (setupStore ''ab'' abOptions pluginStavue (init_machine ())) = Inr 0" by code_simp
  then have h: "setupStore ''ab'' abOptions pluginStavue (init_machine ()) =
     (Inr 0, snd (setupStore ''ab'' abOptions pluginStavue (init_machine ())))"
    by (simp add: prod_eq_iff)
  have st: "state abOptions (world (init_machine ())) = (Inr abState, ())"
    by (simp add: abOptions_def)
  have names: "wiredNames abOptions abState = {''a'', ''b'', ''$reset'', ''$subscribe''}"
    by (auto simp: wiredNames_def abOptions_def abState_def)
  have fl: "map (\<lambda>c. map_of (pc_instance c) ''flag'')
     (pluginCalls (snd (setupStore ''ab'' abOptions pluginStavue (init_machine ())))) =
     [None, Some (Plain (VNum 1))]" by code_simp
  have sv: "plugins pluginStavue = [tagPlugin, listenPlugin]" "app pluginStavue = Some 0"
    by (simp_all add: pluginStavue_def install_def createStavue_def)
  from C9_plugins_in_order_fresh_context [OF h st] h st fl show ?thesis
    by (simp add: names sv init_machine_def tagPlugin_def listenPlugin_def)
qed

text \<open>
  C9 as stated fails on the context object: \<^verbatim>\<open>p1\<close> and \<^verbatim>\<open>p2\<close> are given two different
  objects, and after \<^verbatim>\<open>p1\<close> has set \<^verbatim>\<open>context.id = 'changed'\<close>, \<^verbatim>\<open>p2\<close> is still given the
  identifier \<^verbatim>\<open>'ab'\<close>.
\<close>

theorem C9_counterexample:
  "map pc_plugin (pluginCalls (snd (snd pluginRun))) = [''p1'', ''p2''] \<and>
   map pc_context (pluginCalls (snd (snd pluginRun))) = [0, 1] \<and>
   map pc_id (pluginCalls (snd (snd pluginRun))) = [''ab'', ''ab''] \<and>
   map ctx_id (contexts (snd (snd pluginRun))) = [''changed'', ''ab'']"
  by code_simp

text \<open>
  C10.  After the assembly steps of \<^verbatim>\<open>setupStore\<close> (actions, state values, state handles,
  getters, built-in methods, in this order) the instance holds under every name what the
  last of these assignments put there: \<^verbatim>\<open>$reset\<close> and \<^verbatim>\<open>$subscribe\<close> are the built-in methods
  whatever the definition declares; otherwise a getter of that name; otherwise the handle of
  a state field of that name; otherwise the bound action; otherwise nothing.
\<close>

theorem C10_last_assignment_wins:
  "case wireStore sid options lit m of
     (a, m1) \<Rightarrow>
       map_option (\<lambda>s. map_of (storeInstance s) n) (stores m1 a) =
         Some (slotAfterWiring (case actions options of None \<Rightarrow> [] | Some xs \<Rightarrow> xs) (jkeys lit)
                 (case getters options of None \<Rightarrow> [] | Some xs \<Rightarrow> xs) n)"
proof -
  obtain a m1 where w: "wireStore sid options lit m = (a, m1)" by (cases "wireStore sid options lit m")
  from wireStore_instance [OF w, of n] w show ?thesis by auto
qed

theorem C10_witness:
  "map (\<lambda>n. map_option (\<lambda>s. map_of (storeInstance s) n)
            (stores (snd (wireStore ''clash'' clashOptions clashState (init_machine ())))
               (fst (wireStore ''clash'' clashOptions clashState (init_machine ())))))
     [''x'', ''y'', ''go'', ''$reset'', ''$subscribe'', ''z''] =
   [Some (Some (StateRef ''x'')), Some (Some (Getter ''y'')), Some (Some (Action ''go'')),
    Some (Some (Method Reset)), Some (Some (Method Subscribe)), Some None]"
  using C10_last_assignment_wins [where sid = "''clash''" and options = clashOptions and lit = clashState
      and m = "init_machine ()" and n = "''x''"]
    C10_last_assignment_wins [where sid = "''clash''" and options = clashOptions and lit = clashState
      and m = "init_machine ()" and n = "''y''"]
    C10_last_assignment_wins [where sid = "''clash''" and options = clashOptions and lit = clashState
      and m = "init_machine ()" and n = "''go''"]
    C10_last_assignment_wins [where sid = "''clash''" and options = clashOptions and lit = clashState
      and m = "init_machine ()" and n = "''$reset''"]
    C10_last_assignment_wins [where sid = "''clash''" and options = clashOptions and lit = clashState
      and m = "init_machine ()" and n = "''$subscribe''"]
    C10_last_assignment_wins [where sid = "''clash''" and options = clashOptions and lit = clashState
      and m = "init_machine ()" and n = "''z''"]
  by (simp add: slotAfterWiring_def clashOptions_def clashState_def split: prod.splits)

end
